theory Spec2Isabelle
  imports Main "HOL-Library.Word"
begin

section \<open>Byte buffers and JavaScript values\<close>

text \<open>
  A Node.js \<open>Buffer\<close> is a list of bytes. \<open>Buffer.from([a, b])\<close> stores every array
  element modulo 256, which is what \<open>of_nat\<close> into an 8-bit word does.
\<close>

type_synonym byte = "8 word"

type_synonym buffer = "byte list"

text \<open>
  The value a JavaScript arithmetic expression over buffer reads can have: a number,
  \<open>undefined\<close> (a read past the end of a buffer, or no \<open>return\<close> value) or \<open>NaN\<close>
  (arithmetic on \<open>undefined\<close>).
\<close>

datatype jsnum = Num nat | Undefined | NaN

datatype js_error = TypeError | Error string

section \<open>Script chunks of the inscription builder\<close>

text \<open>
  A chunk of a bitcore \<open>Script\<close>: \<open>{ buf, len, opcodenum }\<close>. \<open>buf\<close> is \<open>undefined\<close>
  for an opcode without data; \<open>opcodeToChunk\<close> leaves \<open>len\<close> out.
\<close>

record chunk =
  buf :: "buffer option"
  len :: "nat option"
  opcodenum :: nat

definition bufferToChunk :: "buffer \<Rightarrow> chunk" where
  "bufferToChunk b =
     \<lparr> buf = (if length b \<noteq> 0 then Some b else None),
       len = Some (length b),
       opcodenum = (if length b \<le> 75 then length b else if length b \<le> 255 then 76 else 77) \<rparr>"

definition numberToChunk :: "nat \<Rightarrow> chunk" where
  "numberToChunk n =
     \<lparr> buf = (if n \<le> 16 then None
              else if n < 128 then Some [of_nat n]
              else Some [of_nat (n mod 256), of_nat (n div 256)]),
       len = Some (if n \<le> 16 then 0 else if n < 128 then 1 else 2),
       opcodenum = (if n = 0 then 0 else if n \<le> 16 then 80 + n else if n < 128 then 1 else 2) \<rparr>"

definition opcodeToChunk :: "nat \<Rightarrow> chunk" where
  "opcodeToChunk op = \<lparr> buf = None, len = None, opcodenum = op \<rparr>"

text \<open>
  \<open>chunk.buf[i]\<close>: a \<open>TypeError\<close> when \<open>buf\<close> is \<open>undefined\<close>, \<open>undefined\<close> past the end
  of the buffer, the byte as a number otherwise.
\<close>

definition buf_at :: "chunk \<Rightarrow> nat \<Rightarrow> js_error + jsnum" where
  "buf_at c i =
     (case buf c of
        None \<Rightarrow> Inl TypeError
      | Some b \<Rightarrow> Inr (if i < length b then Num (unat (b ! i)) else Undefined))"

text \<open>\<open>hi * 255 + lo\<close> in JavaScript arithmetic.\<close>

fun js_mul255_add :: "jsnum \<Rightarrow> jsnum \<Rightarrow> jsnum" where
  "js_mul255_add (Num hi) (Num lo) = Num (hi * 255 + lo)"
| "js_mul255_add _ _ = NaN"

definition chunkToNumber :: "chunk \<Rightarrow> js_error + jsnum" where
  "chunkToNumber c =
     (if opcodenum c = 0 then Inr (Num 0)
      else if opcodenum c = 1 then buf_at c 0
      else if opcodenum c = 2 then
        (case buf_at c 1 of
           Inl e \<Rightarrow> Inl e
         | Inr hi \<Rightarrow> (case buf_at c 0 of Inl e \<Rightarrow> Inl e | Inr lo \<Rightarrow> Inr (js_mul255_add hi lo)))
      else if opcodenum c > 80 \<and> opcodenum c \<le> 96 then Inr (Num (opcodenum c - 80))
      else Inr Undefined)"

section \<open>Content store: the master index on disk\<close>

text \<open>
  Values that survive \<open>JSON.stringify\<close> / \<open>JSON.parse\<close> unchanged; a missing property
  (\<open>undefined\<close>) is \<open>None\<close> in the object's map. Numbers are the integers the index
  stores (\<open>size\<close>).
\<close>

datatype jsval = JNull | JBool bool | JNum int | JStr string

type_synonym jsobject = "string \<rightharpoonup> jsval"

type_synonym master = "string \<rightharpoonup> jsobject"

text \<open>JavaScript truthiness, as \<open>||\<close> and \<open>!\<close> test it.\<close>

fun truthy :: "jsval option \<Rightarrow> bool" where
  "truthy None = False"
| "truthy (Some JNull) = False"
| "truthy (Some (JBool b)) = b"
| "truthy (Some (JNum n)) = (n \<noteq> 0)"
| "truthy (Some (JStr s)) = (s \<noteq> [])"

definition digit_char :: "nat \<Rightarrow> char" where
  "digit_char d = char_of (48 + d)"

function show_nat :: "nat \<Rightarrow> string" where
  "show_nat n = (if n < 10 then [digit_char n] else show_nat (n div 10) @ [digit_char (n mod 10)])"
  by pat_completeness auto
termination
  by (relation "measure id") auto

declare show_nat.simps [simp del]

text \<open>The property key a value turns into when it indexes an object.\<close>

fun key_of :: "jsval \<Rightarrow> string" where
  "key_of (JStr s) = s"
| "key_of (JNum n) = (if n < 0 then CHR ''-'' # show_nat (nat (- n)) else show_nat (nat n))"
| "key_of (JBool b) = (if b then ''true'' else ''false'')"
| "key_of JNull = ''null''"

text \<open>
  What a file holds, as far as \<open>loadMaster\<close> can tell: text that \<open>JSON.parse\<close> turns
  into an index object, or text it rejects or finds blank (an empty, cut or garbled file).
\<close>

datatype file_content = Malformed | Json master

datatype fs_call =
    ExistsSync string
  | MkdirSync string
  | ReadFileSync string
  | WriteFileSync string file_content
  | RenameSync string string
  | UnlinkSync string

text \<open>
  The disk: the directories, the files, and the \<open>fs\<close> calls made so far, in order. The
  disk is healthy: a call on an existing directory does what it is asked.
\<close>

record disk =
  dirs :: "string set"
  files :: "string \<rightharpoonup> file_content"
  calls :: "fs_call list"

definition CONTENT_DIR :: string where
  "CONTENT_DIR = ''content''"

definition MASTER_DIR :: string where
  "MASTER_DIR = ''content/master''"

definition MASTER_PATH :: string where
  "MASTER_PATH = ''content/master/master.json''"

definition logged :: "fs_call \<Rightarrow> disk \<Rightarrow> disk" where
  "logged c d = d\<lparr>calls := calls d @ [c]\<rparr>"

definition path_exists :: "disk \<Rightarrow> string \<Rightarrow> bool" where
  "path_exists d p = (p \<in> dirs d \<or> p \<in> dom (files d))"

definition mkdirSync :: "string \<Rightarrow> disk \<Rightarrow> disk" where
  "mkdirSync p d = logged (MkdirSync p) (d\<lparr>dirs := insert p (dirs d)\<rparr>)"

definition writeFileSync :: "string \<Rightarrow> file_content \<Rightarrow> disk \<Rightarrow> disk" where
  "writeFileSync p c d = logged (WriteFileSync p c) (d\<lparr>files := (files d)(p \<mapsto> c)\<rparr>)"

text \<open>
  \<open>fs.writeFileSync\<close> opens its target for writing, which empties it, and then writes
  the data. A process stopped in between leaves the target empty or cut short.
\<close>

definition writeFileSync_interrupted :: "string \<Rightarrow> file_content \<Rightarrow> disk \<Rightarrow> disk" where
  "writeFileSync_interrupted p c d =
     logged (WriteFileSync p c) (d\<lparr>files := (files d)(p \<mapsto> Malformed)\<rparr>)"

definition ensureContentDir :: "disk \<Rightarrow> disk" where
  "ensureContentDir d =
     (let d1 = logged (ExistsSync CONTENT_DIR) d;
          d2 = (if \<not> path_exists d1 CONTENT_DIR then mkdirSync CONTENT_DIR d1 else d1);
          d3 = logged (ExistsSync MASTER_DIR) d2
      in if \<not> path_exists d3 MASTER_DIR then mkdirSync MASTER_DIR d3 else d3)"

definition loadMaster :: "disk \<Rightarrow> master \<times> disk" where
  "loadMaster d =
     (let d1 = logged (ExistsSync MASTER_PATH) (ensureContentDir d)
      in if \<not> path_exists d1 MASTER_PATH then (Map.empty, d1)
         else (case files d1 MASTER_PATH of
                 Some (Json m) \<Rightarrow> (m, logged (ReadFileSync MASTER_PATH) d1)
               | _ \<Rightarrow> (Map.empty, logged (ReadFileSync MASTER_PATH) d1)))"

definition saveMaster :: "master \<Rightarrow> disk \<Rightarrow> disk" where
  "saveMaster m d = writeFileSync MASTER_PATH (Json m) (ensureContentDir d)"

definition saveMaster_interrupted :: "master \<Rightarrow> disk \<Rightarrow> disk" where
  "saveMaster_interrupted m d = writeFileSync_interrupted MASTER_PATH (Json m) (ensureContentDir d)"

text \<open>
  \<open>upsertMasterEntry(meta)\<close>; \<open>now\<close> is what \<open>new Date().toISOString()\<close> returns at the
  call. \<open>meta\<close> is \<open>None\<close> for a missing argument.
\<close>

definition upsertMasterEntry :: "jsobject option \<Rightarrow> string \<Rightarrow> disk \<Rightarrow> disk" where
  "upsertMasterEntry meta now d =
     (case meta of
        None \<Rightarrow> d
      | Some m \<Rightarrow>
          if \<not> truthy (m ''inscriptionId'') then d
          else
            (let (master, d1) = loadMaster d;
                 k = key_of (the (m ''inscriptionId''));
                 existing = (case master k of Some e \<Rightarrow> e | None \<Rightarrow> Map.empty);
                 createdAt = (if truthy (existing ''createdAt'') then the (existing ''createdAt'')
                              else if truthy (m ''createdAt'') then the (m ''createdAt'')
                              else JStr now)
             in saveMaster (master(k \<mapsto> (existing ++ m)(''createdAt'' \<mapsto> createdAt))) d1))"

text \<open>A run of upserts, one after the other, each at its own clock reading.\<close>

fun upserts :: "(jsobject option \<times> string) list \<Rightarrow> disk \<Rightarrow> disk" where
  "upserts [] d = d"
| "upserts ((meta, now) # rest) d = upserts rest (upsertMasterEntry meta now d)"

text \<open>The \<open>createdAt\<close> the index on disk records for an inscription id.\<close>

definition createdAt_of :: "disk \<Rightarrow> string \<Rightarrow> jsval option" where
  "createdAt_of d k = (case fst (loadMaster d) k of None \<Rightarrow> None | Some e \<Rightarrow> e ''createdAt'')"

text \<open>What \<open>loadMaster\<close> returns, read off the disk directly.\<close>

definition loaded :: "disk \<Rightarrow> master" where
  "loaded d = (case files d MASTER_PATH of Some (Json m) \<Rightarrow> m | _ \<Rightarrow> Map.empty)"

text \<open>The \<open>fs\<close> calls \<open>ensureContentDir\<close> makes on a disk.\<close>

definition ensure_calls :: "disk \<Rightarrow> fs_call list" where
  "ensure_calls d =
     ExistsSync CONTENT_DIR # (if path_exists d CONTENT_DIR then [] else [MkdirSync CONTENT_DIR]) @
     ExistsSync MASTER_DIR # (if path_exists d MASTER_DIR then [] else [MkdirSync MASTER_DIR])"

text \<open>An empty working directory, and two index entries used as examples below.\<close>

definition fresh_disk :: disk where
  "fresh_disk = \<lparr> dirs = {}, files = Map.empty, calls = [] \<rparr>"

definition meta_first :: jsobject where
  "meta_first = [''inscriptionId'' \<mapsto> JStr ''abi0'', ''filename'' \<mapsto> JStr ''abi0.bin'', ''size'' \<mapsto> JNum 3]"

definition meta_later :: jsobject where
  "meta_later = [''inscriptionId'' \<mapsto> JStr ''abi0'', ''filename'' \<mapsto> JStr ''abi0.png'',
                 ''createdAt'' \<mapsto> JStr ''1999-12-31T23:59:59.000Z'']"

section \<open>Strings, hex and UTF-8\<close>

text \<open>
  A JavaScript string is modelled by the HOL string that holds its UTF-8 encoding, one
  \<open>char\<close> per byte; the asm tokens, mime types and hex strings handled here are ASCII.
\<close>

definition hexval :: "char \<Rightarrow> nat option" where
  "hexval c =
     (let n = (of_char c :: nat)
      in if 48 \<le> n \<and> n \<le> 57 then Some (n - 48)
         else if 97 \<le> n \<and> n \<le> 102 then Some (n - 87)
         else if 65 \<le> n \<and> n \<le> 70 then Some (n - 55)
         else None)"

text \<open>
  \<open>Buffer.from(s, "hex")\<close>: two hex digits make a byte; decoding stops at the first pair
  that is not two hex digits, and a last single digit is dropped.
\<close>

fun hex_decode :: "string \<Rightarrow> buffer" where
  "hex_decode (a # b # rest) =
     (case hexval a of
        None \<Rightarrow> []
      | Some x \<Rightarrow> (case hexval b of
                    None \<Rightarrow> []
                  | Some y \<Rightarrow> of_nat (16 * x + y) # hex_decode rest))"
| "hex_decode _ = []"

definition hex_digit :: "nat \<Rightarrow> char" where
  "hex_digit d = (if d < 10 then char_of (48 + d) else char_of (87 + d))"

text \<open>\<open>buf.toString("hex")\<close>, which is also how the node prints script data in asm.\<close>

definition hex_byte :: "byte \<Rightarrow> string" where
  "hex_byte b = [hex_digit (unat b div 16), hex_digit (unat b mod 16)]"

definition hex_encode :: "buffer \<Rightarrow> string" where
  "hex_encode b = concat (map hex_byte b)"

text \<open>\<open>Buffer.from(s)\<close>: the UTF-8 bytes of a string.\<close>

definition bytes_of :: "string \<Rightarrow> buffer" where
  "bytes_of s = map of_char s"

text \<open>U+FFFD, which a decoder puts in place of bytes that are not UTF-8.\<close>

definition replacement :: string where
  "replacement = [char_of (0xEF :: nat), char_of (0xBF :: nat), char_of (0xBD :: nat)]"

text \<open>
  \<open>buf.toString("utf8")\<close>: well-formed sequences are kept, every maximal ill-formed run
  becomes U+FFFD. \<open>needed\<close> counts the continuation bytes still expected, \<open>lower\<close> and
  \<open>upper\<close> bound the next one, \<open>acc\<close> holds the bytes of the sequence read so far.
\<close>

function utf8_run :: "nat \<Rightarrow> nat \<Rightarrow> nat \<Rightarrow> buffer \<Rightarrow> buffer \<Rightarrow> string" where
  "utf8_run needed lower upper acc [] = (if needed = 0 then [] else replacement)"
| "utf8_run needed lower upper acc (b # bs) =
     (let n = unat b
      in if needed = 0 then
           (if n \<le> 0x7F then char_of n # utf8_run 0 0x80 0xBF [] bs
            else if 0xC2 \<le> n \<and> n \<le> 0xDF then utf8_run 1 0x80 0xBF [b] bs
            else if 0xE0 \<le> n \<and> n \<le> 0xEF then
              utf8_run 2 (if n = 0xE0 then 0xA0 else 0x80) (if n = 0xED then 0x9F else 0xBF) [b] bs
            else if 0xF0 \<le> n \<and> n \<le> 0xF4 then
              utf8_run 3 (if n = 0xF0 then 0x90 else 0x80) (if n = 0xF4 then 0x8F else 0xBF) [b] bs
            else replacement @ utf8_run 0 0x80 0xBF [] bs)
         else if n < lower \<or> upper < n then replacement @ utf8_run 0 0x80 0xBF [] (b # bs)
         else if needed = 1 then
           map (\<lambda>x. char_of (unat x)) (acc @ [b]) @ utf8_run 0 0x80 0xBF [] bs
         else utf8_run (needed - 1) 0x80 0xBF (acc @ [b]) bs)"
  by pat_completeness auto
termination
  by (relation "measure (\<lambda>(needed, lower, upper, acc, bs). 2 * length bs + (if needed = 0 then 0 else 1))")
     auto

definition utf8_toString :: "buffer \<Rightarrow> string" where
  "utf8_toString b = utf8_run 0 0x80 0xBF [] b"

text \<open>
  \<open>buf.toString("ascii", start, end)\<close>: the bytes from \<open>start\<close> up to \<open>end\<close>, each with
  its highest bit cleared.
\<close>

definition ascii_slice :: "buffer \<Rightarrow> nat \<Rightarrow> nat \<Rightarrow> string" where
  "ascii_slice b start end = map (\<lambda>x. char_of (unat x mod 128)) (take (end - start) (drop start b))"

text \<open>
  The length in bytes of the white space character (\<open>\s\<close>, and what \<open>trimStart\<close>
  removes) a string starts with, 0 when it starts with none: U+0009 to U+000D, U+0020,
  U+00A0, U+1680, U+2000 to U+200A, U+2028, U+2029, U+202F, U+205F, U+3000, U+FEFF.
\<close>

definition ws_len :: "string \<Rightarrow> nat" where
  "ws_len s =
     (case map of_char s of
        [] \<Rightarrow> 0
      | a # r \<Rightarrow>
          if (9::nat) \<le> a \<and> a \<le> 13 then 1
          else if a = 32 then 1
          else (case r of
                  [] \<Rightarrow> 0
                | b # r' \<Rightarrow>
                    if a = 0xC2 \<and> b = 0xA0 then 2
                    else (case r' of
                            [] \<Rightarrow> 0
                          | c # _ \<Rightarrow>
                              if a = 0xE1 \<and> b = 0x9A \<and> c = 0x80 then 3
                              else if a = 0xE2 \<and> b = 0x80 \<and> 0x80 \<le> c \<and> c \<le> 0x8A then 3
                              else if a = 0xE2 \<and> b = 0x80 \<and> (c = 0xA8 \<or> c = 0xA9 \<or> c = 0xAF) then 3
                              else if a = 0xE2 \<and> b = 0x81 \<and> c = 0x9F then 3
                              else if a = 0xE3 \<and> b = 0x80 \<and> c = 0x80 then 3
                              else if a = 0xEF \<and> b = 0xBB \<and> c = 0xBF then 3
                              else 0)))"

text \<open>\<open>s.trimStart()\<close>, and the head of a match of \<open>\s*\<close>.\<close>

fun trimStart_fuel :: "nat \<Rightarrow> string \<Rightarrow> string" where
  "trimStart_fuel 0 s = s"
| "trimStart_fuel (Suc k) s = (if ws_len s = 0 then s else trimStart_fuel k (drop (ws_len s) s))"

definition trimStart :: "string \<Rightarrow> string" where
  "trimStart s = trimStart_fuel (length s) s"

definition startsWith :: "string \<Rightarrow> string \<Rightarrow> bool" where
  "startsWith s p = (take (length p) s = p)"

text \<open>
  A match, at the head of \<open>s\<close>, of the regular expression \<open>key\s*:\s*close\<close> for literal
  \<open>key\<close> and \<open>close\<close>. Neither \<open>:\<close> nor \<open>close\<close> is white space, so each \<open>\s*\<close> takes all
  the white space there is.
\<close>

definition key_colon_at :: "string \<Rightarrow> string \<Rightarrow> string \<Rightarrow> bool" where
  "key_colon_at key close s =
     (startsWith s key \<and>
      (let r = trimStart (drop (length key) s)
       in startsWith r '':'' \<and> startsWith (trimStart (drop 1 r)) close))"

text \<open>\<open>/key\s*:\s*close/.test(s)\<close>: a match at some position of \<open>s\<close>.\<close>

fun key_colon_test :: "string \<Rightarrow> string \<Rightarrow> string \<Rightarrow> bool" where
  "key_colon_test key close [] = key_colon_at key close []"
| "key_colon_test key close (c # cs) =
     (key_colon_at key close (c # cs) \<or> key_colon_test key close cs)"

definition is_digit :: "char \<Rightarrow> bool" where
  "is_digit c = (48 \<le> (of_char c :: nat) \<and> (of_char c :: nat) \<le> 57)"

text \<open>\<open>s.replace(/^-/, "")\<close>.\<close>

definition strip_minus :: "string \<Rightarrow> string" where
  "strip_minus s = (case s of [] \<Rightarrow> [] | c # cs \<Rightarrow> if c = CHR ''-'' then cs else s)"

text \<open>\<open>/^-?\d+$/.test(s)\<close>.\<close>

definition isIntegerString :: "string \<Rightarrow> bool" where
  "isIntegerString s = (strip_minus s \<noteq> [] \<and> list_all is_digit (strip_minus s))"

text \<open>
  A number as the parsers hold it: an integer, \<open>NaN\<close> or \<open>null\<close>. Integers are exact
  here; JavaScript rounds those beyond \<open>2^53\<close>, which never turns a non-zero value
  into 0.
\<close>

datatype jsint = IntV int | NaNV | NullV

definition digits_value :: "string \<Rightarrow> nat" where
  "digits_value ds = foldl (\<lambda>a c. 10 * a + (of_char c - 48)) 0 ds"

text \<open>\<open>parseInt(s, 10)\<close>: leading white space, a sign, and the digits up to the first non-digit.\<close>

definition parseInt10 :: "string \<Rightarrow> jsint" where
  "parseInt10 s =
     (let t = trimStart s;
          neg = startsWith t ''-'';
          u = (if startsWith t ''-'' \<or> startsWith t ''+'' then drop 1 t else t);
          ds = takeWhile is_digit u
      in if ds = [] then NaNV
         else IntV (if neg then - int (digits_value ds) else int (digits_value ds)))"

section \<open>Type sniffer\<close>

text \<open>\<open>{ mimeType, ext }\<close>; \<open>null\<close> is \<open>None\<close>.\<close>

record sniffed =
  sn_mimeType :: "string option"
  sn_ext :: "string option"

definition no_type :: sniffed where
  "no_type = \<lparr> sn_mimeType = None, sn_ext = None \<rparr>"

definition known_type :: "string \<Rightarrow> string \<Rightarrow> sniffed" where
  "known_type m e = \<lparr> sn_mimeType = Some m, sn_ext = Some e \<rparr>"

definition png_magic :: buffer where
  "png_magic = [0x89, 0x50, 0x4e, 0x47, 0x0d, 0x0a, 0x1a, 0x0a]"

definition jpg_magic :: buffer where
  "jpg_magic = [0xff, 0xd8, 0xff]"

text \<open>A literal between double quotes.\<close>

definition quoted :: "string \<Rightarrow> string" where
  "quoted s = CHR 0x22 # s @ [CHR 0x22]"

text \<open>
  The test of the "very conservative GLTF JSON heuristic" on the decoded head:
  \<open>t.startsWith("{")\<close>, \<open>/"asset"\s*:\s*\{/.test(t)\<close> and \<open>/"version"\s*:\s*"/.test(t)\<close>.
\<close>

definition gltf_heuristic :: "buffer \<Rightarrow> bool" where
  "gltf_heuristic b =
     (let t = trimStart (utf8_toString (take 256 b))
      in startsWith t ''{'' \<and>
         key_colon_test (quoted ''asset'') ''{'' t \<and>
         key_colon_test (quoted ''version'') [CHR 0x22] t)"

definition sniffFileTypeFromBuffer :: "buffer \<Rightarrow> sniffed" where
  "sniffFileTypeFromBuffer b =
     (if length b < 4 then no_type
      else if ascii_slice b 0 4 = ''glTF'' then known_type ''model/gltf-binary'' ''glb''
      else if length b \<ge> 8 \<and> take 8 b = png_magic then known_type ''image/png'' ''png''
      else if length b \<ge> 3 \<and> take 3 b = jpg_magic then known_type ''image/jpeg'' ''jpg''
      else if length b \<ge> 6 \<and> (ascii_slice b 0 6 = ''GIF87a'' \<or> ascii_slice b 0 6 = ''GIF89a'')
        then known_type ''image/gif'' ''gif''
      else if length b \<ge> 12 \<and> ascii_slice b 0 4 = ''RIFF'' \<and> ascii_slice b 8 12 = ''WEBP''
        then known_type ''image/webp'' ''webp''
      else if length b \<ge> 32 \<and> gltf_heuristic b then known_type ''model/gltf+json'' ''gltf''
      else no_type)"

text \<open>
  The listed signatures, byte by byte: \<open>glTF\<close>; the PNG and JPEG magic numbers;
  \<open>GIF87a\<close> or \<open>GIF89a\<close>; \<open>RIFF\<close>, four bytes of any value, \<open>WEBP\<close>.
\<close>

definition matches_glb :: "buffer \<Rightarrow> bool" where
  "matches_glb b = (take 4 b = bytes_of ''glTF'')"

definition matches_png :: "buffer \<Rightarrow> bool" where
  "matches_png b = (take 8 b = png_magic)"

definition matches_jpg :: "buffer \<Rightarrow> bool" where
  "matches_jpg b = (take 3 b = jpg_magic)"

definition matches_gif :: "buffer \<Rightarrow> bool" where
  "matches_gif b = (take 6 b = bytes_of ''GIF87a'' \<or> take 6 b = bytes_of ''GIF89a'')"

definition matches_webp :: "buffer \<Rightarrow> bool" where
  "matches_webp b = (take 4 b = bytes_of ''RIFF'' \<and> take 4 (drop 8 b) = bytes_of ''WEBP'')"

text \<open>Bytes below \<open>0x80\<close>, which \<open>toString("ascii")\<close> reads as they are.\<close>

definition seven_bit :: "buffer \<Rightarrow> bool" where
  "seven_bit b = list_all (\<lambda>x. unat x < 128) b"

text \<open>
  A JSON text with an object at its root starts, after white space, with an opening
  brace and ends, before white space, with the closing one. Text that does not is not
  valid JSON with a root object.
\<close>

definition json_object_delimited :: "string \<Rightarrow> bool" where
  "json_object_delimited s =
     (startsWith (trimStart s) ''{'' \<and> startsWith (trimStart (rev s)) ''}'')"

text \<open>
  The head of a file that opens an object, an \<open>asset\<close> object and a \<open>version\<close> string and
  closes none of them.
\<close>

definition unclosed_gltf :: string where
  "unclosed_gltf = ''{'' @ quoted ''asset'' @ '':{'' @ quoted ''version'' @ '': '' @ [CHR 0x22] @ ''2.0, and no end''"

section \<open>Envelope parser\<close>

text \<open>\<open>hexToAscii(hexString)\<close>; the \<open>catch\<close> branch is never taken for a string argument.\<close>

definition hexToAscii :: "string \<Rightarrow> string" where
  "hexToAscii hexString = utf8_toString (hex_decode hexString)"

record parsed =
  dataHex :: string
  endOfData :: bool
  chunksFound :: nat
  lastNumChunks :: jsint

record genesis = parsed +
  mimeType :: string

text \<open>
  The \<open>while (index < asmData.length)\<close> loop that \<open>processGenesisAsm\<close> and
  \<open>processSubsequentAsm\<close> share, with its four variables. \<open>asmData[index + 1]\<close> past the
  end is \<open>undefined\<close>, not a string.
\<close>

function asm_loop :: "string list \<Rightarrow> nat \<Rightarrow> string \<Rightarrow> nat \<Rightarrow> jsint \<Rightarrow> parsed" where
  "asm_loop asmData index dHex found lastN =
     (if index < length asmData then
        (if isIntegerString (asmData ! index) then
           (let numChunks = parseInt10 (strip_minus (asmData ! index))
            in if length asmData \<le> index + 1
               then \<lparr> dataHex = dHex, endOfData = False, chunksFound = found, lastNumChunks = lastN \<rparr>
               else if numChunks = IntV 0
               then \<lparr> dataHex = dHex @ asmData ! (index + 1), endOfData = True,
                      chunksFound = found + 1, lastNumChunks = numChunks \<rparr>
               else asm_loop asmData (index + 2) (dHex @ asmData ! (index + 1)) (found + 1) numChunks)
         else \<lparr> dataHex = dHex, endOfData = False, chunksFound = found, lastNumChunks = lastN \<rparr>)
      else \<lparr> dataHex = dHex, endOfData = False, chunksFound = found, lastNumChunks = lastN \<rparr>)"
  by pat_completeness auto
termination
  by (relation "measure (\<lambda>(asmData, index, dHex, found, lastN). length asmData - index)") auto

declare asm_loop.simps [simp del]

definition processGenesisAsm :: "string list \<Rightarrow> js_error + genesis" where
  "processGenesisAsm asmData =
     (if length asmData < 3 then Inl (Error ''Genesis asm too short.'')
      else
        (let numChunks = parseInt10 (strip_minus (asmData ! 1));
             mimeTypeHex = asmData ! 2;
             mime = (if hexToAscii mimeTypeHex \<noteq> [] then hexToAscii mimeTypeHex
                     else ''application/octet-stream'');
             r = asm_loop asmData 3 [] 0 numChunks
         in Inr \<lparr> dataHex = dataHex r, endOfData = endOfData r, chunksFound = chunksFound r,
                  lastNumChunks = lastNumChunks r, mimeType = mime \<rparr>))"

definition processSubsequentAsm :: "string list \<Rightarrow> parsed" where
  "processSubsequentAsm asmData = asm_loop asmData 0 [] 0 NullV"

text \<open>
  The pairs the claim speaks of: from a token list, the (integer, hex) pairs taken
  greedily from its head, up to and including the first pair whose integer is 0.
\<close>

fun consumed_pairs :: "string list \<Rightarrow> (string \<times> string) list" where
  "consumed_pairs (n # h # rest) =
     (if isIntegerString n
      then (n, h) # (if parseInt10 (strip_minus n) = IntV 0 then [] else consumed_pairs rest)
      else [])"
| "consumed_pairs _ = []"

definition pair_is_zero :: "string \<times> string \<Rightarrow> bool" where
  "pair_is_zero p = (parseInt10 (strip_minus (fst p)) = IntV 0)"

section \<open>Progress tracker\<close>

text \<open>
  An entry of \<open>progressMap\<close>. \<open>estimatedTotal\<close> and \<open>depTotal\<close> are \<open>null\<close> (\<open>None\<close>) until
  set; the two time stamps are ISO strings.
\<close>

record progress =
  p_txid :: string
  p_chunksFound :: nat
  p_estimatedTotal :: "int option"
  p_active :: bool
  p_label :: string
  p_startedAt :: string
  p_updatedAt :: string
  p_depTotal :: "nat option"
  p_depDone :: nat

text \<open>
  The tracker's state: the map, and how often the clock has been read. Every
  \<open>new Date().toISOString()\<close> is one read; \<open>clock n\<close> is what the read number \<open>n\<close> returns,
  so any sequence of readings can be given.
\<close>

record tracker =
  progressMap :: "string \<rightharpoonup> progress"
  clock_reads :: nat

definition baseProgressObject :: "(nat \<Rightarrow> string) \<Rightarrow> string \<Rightarrow> tracker \<Rightarrow> progress \<times> tracker" where
  "baseProgressObject clock key tr =
     (\<lparr> p_txid = key, p_chunksFound = 0, p_estimatedTotal = None, p_active = True,
        p_label = ''init'', p_startedAt = clock (clock_reads tr),
        p_updatedAt = clock (clock_reads tr + 1), p_depTotal = None, p_depDone = 0 \<rparr>,
      tr\<lparr>clock_reads := clock_reads tr + 2\<rparr>)"

definition initProgress :: "(nat \<Rightarrow> string) \<Rightarrow> string \<Rightarrow> tracker \<Rightarrow> tracker" where
  "initProgress clock key tr =
     (let (p, tr1) = baseProgressObject clock key tr
      in tr1\<lparr>progressMap := (progressMap tr1)(key \<mapsto> p)\<rparr>)"

definition resetProgressForId :: "string \<Rightarrow> tracker \<Rightarrow> tracker" where
  "resetProgressForId key tr = tr\<lparr>progressMap := (progressMap tr)(key := None)\<rparr>"

text \<open>\<open>progressMap.get(key) || baseProgressObject(key)\<close>.\<close>

definition get_or_base :: "(nat \<Rightarrow> string) \<Rightarrow> string \<Rightarrow> tracker \<Rightarrow> progress \<times> tracker" where
  "get_or_base clock key tr =
     (case progressMap tr key of Some p \<Rightarrow> (p, tr) | None \<Rightarrow> baseProgressObject clock key tr)"

text \<open>Store an entry with \<open>updatedAt\<close> read from the clock.\<close>

definition stamp_and_set :: "(nat \<Rightarrow> string) \<Rightarrow> string \<Rightarrow> progress \<Rightarrow> tracker \<Rightarrow> tracker" where
  "stamp_and_set clock key p tr =
     tr\<lparr>progressMap := (progressMap tr)(key \<mapsto> p\<lparr>p_updatedAt := clock (clock_reads tr)\<rparr>),
        clock_reads := clock_reads tr + 1\<rparr>"

text \<open>
  \<open>updateProgress(key, label, chunksFoundInStep, numChunksReported, cb)\<close>. The callback
  and the console only observe the snapshot and are left out, here and below.
\<close>

definition updateProgress ::
  "(nat \<Rightarrow> string) \<Rightarrow> string \<Rightarrow> string \<Rightarrow> nat \<Rightarrow> jsint \<Rightarrow> tracker \<Rightarrow> tracker" where
  "updateProgress clock key label chunksFoundInStep numChunksReported tr =
     (let (p, tr1) = get_or_base clock key tr;
          p1 = (if chunksFoundInStep > 0
                then p\<lparr>p_chunksFound := p_chunksFound p + chunksFoundInStep\<rparr> else p);
          p2 = (case numChunksReported of
                  IntV n \<Rightarrow>
                    (case p_estimatedTotal p1 of
                       None \<Rightarrow> p1\<lparr>p_estimatedTotal := Some (int (p_chunksFound p1) + n)\<rparr>
                     | Some e \<Rightarrow>
                         if e = 0 \<or> int (p_chunksFound p1) + n > e
                         then p1\<lparr>p_estimatedTotal := Some (int (p_chunksFound p1) + n)\<rparr>
                         else p1)
                | _ \<Rightarrow> p1)
      in stamp_and_set clock key (p2\<lparr>p_label := label, p_active := True\<rparr>) tr1)"

definition setDependencyPlan :: "(nat \<Rightarrow> string) \<Rightarrow> string \<Rightarrow> nat \<Rightarrow> tracker \<Rightarrow> tracker" where
  "setDependencyPlan clock key totalDeps tr =
     (if key = [] \<or> totalDeps \<le> 0 then tr
      else (let (p, tr1) = get_or_base clock key tr
            in stamp_and_set clock key (p\<lparr>p_depTotal := Some totalDeps, p_depDone := 0\<rparr>) tr1))"

definition incrementDependencyDone :: "(nat \<Rightarrow> string) \<Rightarrow> string \<Rightarrow> tracker \<Rightarrow> tracker" where
  "incrementDependencyDone clock key tr =
     (if key = [] then tr
      else (case progressMap tr key of
              None \<Rightarrow> tr
            | Some p \<Rightarrow> stamp_and_set clock key (p\<lparr>p_depDone := p_depDone p + 1\<rparr>) tr))"

definition completeProgress :: "(nat \<Rightarrow> string) \<Rightarrow> string \<Rightarrow> tracker \<Rightarrow> tracker" where
  "completeProgress clock key tr =
     (case progressMap tr key of
        None \<Rightarrow> tr
      | Some p \<Rightarrow> stamp_and_set clock key (p\<lparr>p_active := False\<rparr>) tr)"

text \<open>\<open>getProgress(key)\<close>: \<open>null\<close> or a snapshot; the entry itself stands for the snapshot.\<close>

definition getProgress :: "string \<Rightarrow> tracker \<Rightarrow> progress option" where
  "getProgress key tr = progressMap tr key"

section \<open>The node, as the chain walker sees it\<close>

text \<open>
  An input of a verbose transaction: the outpoint it spends (\<open>txid\<close>, \<open>vout\<close>) and
  \<open>scriptSig.asm\<close>, \<open>None\<close> where the node gives none (a coinbase input).
\<close>

record 'id vin =
  v_txid :: "'id option"
  v_vout :: "nat option"
  v_asm :: "string option"

text \<open>
  \<open>getrawtransaction txid 1\<close>: the inputs, and the block the transaction is confirmed in
  (\<open>blockhash\<close>, given here by the height \<open>getblock\<close> returns for it), \<open>None\<close> in the mempool.
\<close>

record 'id rawtx =
  r_vin :: "'id vin list"
  r_height :: "nat option"

record 'id blocktx =
  b_txid :: 'id
  b_vin :: "'id vin list"

text \<open>The node: its transaction index and its chain, the block at height \<open>h\<close> at index \<open>h\<close>.\<close>

record 'id node =
  n_tx :: "'id \<rightharpoonup> 'id rawtx"
  n_blocks :: "'id blocktx list list"

definition getrawtransaction :: "'id node \<Rightarrow> 'id \<Rightarrow> js_error + 'id rawtx" where
  "getrawtransaction nd txid =
     (case n_tx nd txid of
        None \<Rightarrow> Inl (Error ''No such mempool or blockchain transaction'')
      | Some r \<Rightarrow> Inr r)"

definition spends :: "'id \<Rightarrow> nat \<Rightarrow> 'id vin \<Rightarrow> bool" where
  "spends txid voutIndex v = (v_txid v = Some txid \<and> v_vout v = Some voutIndex)"

text \<open>The first transaction of a block with an input that spends the outpoint.\<close>

fun find_spender :: "'id blocktx list \<Rightarrow> 'id \<Rightarrow> nat \<Rightarrow> 'id option" where
  "find_spender [] txid voutIndex = None"
| "find_spender (t # ts) txid voutIndex =
     (if list_ex (spends txid voutIndex) (b_vin t) then Some (b_txid t)
      else find_spender ts txid voutIndex)"

text \<open>
  The \<open>for (currentHeight = startHeight; currentHeight <= startHeight + depthBlocks; ...)\<close>
  loop of \<open>findNextOrdinalTx\<close>, with the number of heights left to scan. \<open>getblockhash\<close>
  fails beyond the tip.
\<close>

fun scan_blocks :: "'id node \<Rightarrow> 'id \<Rightarrow> nat \<Rightarrow> nat \<Rightarrow> nat \<Rightarrow> ('id \<times> nat \<times> nat) option" where
  "scan_blocks nd txid voutIndex currentHeight 0 = None"
| "scan_blocks nd txid voutIndex currentHeight (Suc left) =
     (if length (n_blocks nd) \<le> currentHeight then None
      else (case find_spender (n_blocks nd ! currentHeight) txid voutIndex of
              Some t \<Rightarrow> Some (t, voutIndex, currentHeight)
            | None \<Rightarrow> scan_blocks nd txid voutIndex (currentHeight + 1) left))"

text \<open>\<open>findNextOrdinalTx(txid, voutIndex, depthBlocks)\<close>: \<open>{ nextTxid, voutIndex, height }\<close> or \<open>null\<close>.\<close>

definition findNextOrdinalTx :: "'id node \<Rightarrow> 'id \<Rightarrow> nat \<Rightarrow> nat \<Rightarrow> ('id \<times> nat \<times> nat) option" where
  "findNextOrdinalTx nd txid voutIndex depthBlocks =
     (case n_tx nd txid of
        None \<Rightarrow> None
      | Some raw \<Rightarrow>
          (case r_height raw of
             None \<Rightarrow> None
           | Some startHeight \<Rightarrow> scan_blocks nd txid voutIndex startHeight (depthBlocks + 1)))"

section \<open>Chain walker\<close>

text \<open>
  \<open>String(asm).trim().split(/\s+/)\<close>: the maximal runs of characters that are not white
  space; a blank string gives one empty token. \<open>asm_runs\<close> scans with the run read so far.
\<close>

fun asm_runs :: "nat \<Rightarrow> string \<Rightarrow> string \<Rightarrow> string list" where
  "asm_runs 0 cur s = (if cur = [] then [] else [cur])"
| "asm_runs (Suc k) cur [] = (if cur = [] then [] else [cur])"
| "asm_runs (Suc k) cur (c # cs) =
     (if ws_len (c # cs) = 0 then asm_runs k (cur @ [c]) cs
      else (if cur = [] then [] else [cur]) @ asm_runs k [] (drop (ws_len (c # cs)) (c # cs)))"

definition asm_tokens :: "string \<Rightarrow> string list" where
  "asm_tokens s = (if asm_runs (length s) [] s = [] then [[]] else asm_runs (length s) [] s)"

text \<open>The variables of \<open>decodeDoginalsChain\<close>, and the tracker it reports to.\<close>

record 'id walk =
  w_dataHex :: string
  w_mimeType :: "string option"
  w_isGenesis :: bool
  w_txid :: 'id
  w_processed :: "'id set"
  w_voutIndex :: nat
  w_endOfData :: bool
  w_tracker :: tracker

text \<open>One turn of \<open>for (const vin of rawTx.vin)\<close>. An error leaves the tracker as it is.\<close>

definition process_vin ::
  "(nat \<Rightarrow> string) \<Rightarrow> string \<Rightarrow> 'id vin \<Rightarrow> 'id walk \<Rightarrow> (js_error \<times> tracker) + 'id walk" where
  "process_vin clock progressKey v st =
     (case v_asm v of
        None \<Rightarrow> Inr st
      | Some asm \<Rightarrow>
          if asm = [] then Inr st
          else
            (case asm_tokens asm of
               [] \<Rightarrow> Inr st
             | t0 # ts \<Rightarrow>
                 if w_isGenesis st then
                   (if t0 = ''6582895'' then
                      (case processGenesisAsm (t0 # ts) of
                         Inl e \<Rightarrow> Inl (e, w_tracker st)
                       | Inr g \<Rightarrow>
                           Inr (st\<lparr> w_dataHex := w_dataHex st @ dataHex g,
                                    w_mimeType := Some (mimeType g),
                                    w_endOfData := endOfData g,
                                    w_isGenesis := False,
                                    w_tracker := updateProgress clock progressKey ''genesis''
                                      (chunksFound g) (lastNumChunks g) (w_tracker st) \<rparr>))
                    else Inr st)
                 else
                   (let r = processSubsequentAsm (t0 # ts)
                    in Inr (st\<lparr> w_dataHex := w_dataHex st @ dataHex r,
                                w_endOfData := (w_endOfData st \<or> endOfData r),
                                w_tracker :=
                                  (if chunksFound r > 0
                                   then updateProgress clock progressKey ''chain''
                                          (chunksFound r) (lastNumChunks r) (w_tracker st)
                                   else w_tracker st) \<rparr>))))"

fun process_vins ::
  "(nat \<Rightarrow> string) \<Rightarrow> string \<Rightarrow> 'id vin list \<Rightarrow> 'id walk \<Rightarrow> (js_error \<times> tracker) + 'id walk" where
  "process_vins clock progressKey [] st = Inr st"
| "process_vins clock progressKey (v # vs) st =
     (case process_vin clock progressKey v st of
        Inl e \<Rightarrow> Inl e
      | Inr st' \<Rightarrow> process_vins clock progressKey vs st')"

text \<open>
  The \<open>while (!endOfData && hop < maxHops)\<close> loop; the first argument after the
  parameters is \<open>maxHops - hop\<close>, the hops left.
\<close>

fun decode_loop ::
  "(nat \<Rightarrow> string) \<Rightarrow> 'id node \<Rightarrow> string \<Rightarrow> nat \<Rightarrow> nat \<Rightarrow> 'id walk \<Rightarrow> (js_error \<times> tracker) + 'id walk" where
  "decode_loop clock nd progressKey depthBlocks 0 st = Inr st"
| "decode_loop clock nd progressKey depthBlocks (Suc left) st =
     (if w_endOfData st then Inr st
      else if w_txid st \<in> w_processed st then
        (case findNextOrdinalTx nd (w_txid st) (w_voutIndex st) depthBlocks of
           Some (t, v, h) \<Rightarrow>
             decode_loop clock nd progressKey depthBlocks left (st\<lparr>w_txid := t, w_voutIndex := v\<rparr>)
         | None \<Rightarrow> Inr st)
      else
        (case getrawtransaction nd (w_txid st) of
           Inl e \<Rightarrow> Inl (e, w_tracker st)
         | Inr rawTx \<Rightarrow>
             (case process_vins clock progressKey (r_vin rawTx)
                     (st\<lparr>w_processed := insert (w_txid st) (w_processed st)\<rparr>) of
                Inl e \<Rightarrow> Inl e
              | Inr st' \<Rightarrow>
                  if w_endOfData st' then Inr st'
                  else
                    (case findNextOrdinalTx nd (w_txid st') (w_voutIndex st') depthBlocks of
                       Some (t, v, h) \<Rightarrow>
                         decode_loop clock nd progressKey depthBlocks left
                           (st'\<lparr>w_txid := t, w_voutIndex := v\<rparr>)
                     | None \<Rightarrow> Inr st'))))"

text \<open>What \<open>decodeDoginalsChain\<close> returns: \<open>{ dataHex, mimeType, stats }\<close>.\<close>

record decoded =
  d_dataHex :: string
  d_mimeType :: string
  d_stats :: "progress option"

definition decodeDoginalsChain ::
  "(nat \<Rightarrow> string) \<Rightarrow> 'id node \<Rightarrow> 'id \<Rightarrow> nat \<Rightarrow> string \<Rightarrow> nat \<Rightarrow> tracker \<Rightarrow>
     (js_error \<times> tracker) + (decoded \<times> tracker)" where
  "decodeDoginalsChain clock nd genesisTxid depthBlocks progressKey maxHops tr =
     (let tr0 = (case getProgress progressKey tr of
                   None \<Rightarrow> initProgress clock progressKey (resetProgressForId progressKey tr)
                 | Some p \<Rightarrow> tr)
      in case decode_loop clock nd progressKey depthBlocks maxHops
                \<lparr> w_dataHex = [], w_mimeType = None, w_isGenesis = True, w_txid = genesisTxid,
                  w_processed = {}, w_voutIndex = 0, w_endOfData = False, w_tracker = tr0 \<rparr> of
           Inl e \<Rightarrow> Inl e
         | Inr st \<Rightarrow>
             if w_dataHex st = [] then
               Inl (Error ''No Doginals data found in transaction chain.'',
                    completeProgress clock progressKey (w_tracker st))
             else
               Inr (\<lparr> d_dataHex = w_dataHex st,
                      d_mimeType = (case w_mimeType st of
                                      None \<Rightarrow> ''application/octet-stream''
                                    | Some m \<Rightarrow> if m = [] then ''application/octet-stream'' else m),
                      d_stats = getProgress progressKey (w_tracker st) \<rparr>,
                    completeProgress clock progressKey (w_tracker st)))"

text \<open>
  The hex-to-bytes step of \<open>reconstructAndReturnBuffer\<close>: five zeros are appended to a
  hex string of odd length, unless \<open>skipOddHexPad\<close> is set, and the result is decoded.
\<close>

definition resultBuf :: "bool \<Rightarrow> string \<Rightarrow> buffer" where
  "resultBuf skipOddHexPad originalHex =
     hex_decode (if \<not> skipOddHexPad \<and> odd (length originalHex) then originalHex @ ''00000''
                 else originalHex)"

text \<open>
  An example: a node with an HTML inscription in transaction \<open>aa\<close> and an image
  inscription in transaction \<open>bb\<close>, each in one hop, and a clock.
\<close>

definition example_clock :: "nat \<Rightarrow> string" where
  "example_clock n = ''T'' @ show_nat n"

definition example_node :: "string node" where
  "example_node =
     \<lparr> n_tx =
         [''aa'' \<mapsto> \<lparr> r_vin = [\<lparr> v_txid = Some ''f0'', v_vout = Some 0,
                                  v_asm = Some ''6582895 1 746578742f68746d6c 0 3c696d67207372633d2f636f6e74656e742f62623e'' \<rparr>],
                      r_height = Some 0 \<rparr>,
          ''bb'' \<mapsto> \<lparr> r_vin = [\<lparr> v_txid = Some ''f1'', v_vout = Some 0,
                                  v_asm = Some ''6582895 1 696d6167652f706e67 0 89504e470d0a1a0a'' \<rparr>],
                      r_height = Some 0 \<rparr>],
       n_blocks = [[]] \<rparr>"

definition empty_tracker :: tracker where
  "empty_tracker = \<lparr> progressMap = Map.empty, clock_reads = 0 \<rparr>"

text \<open>The tracker that a call of \<open>decodeDoginalsChain\<close> leaves behind, whether it returns or throws.\<close>

definition tracker_after :: "(js_error \<times> tracker) + (decoded \<times> tracker) \<Rightarrow> tracker" where
  "tracker_after r = (case r of Inl (e, tr) \<Rightarrow> tr | Inr (d, tr) \<Rightarrow> tr)"

text \<open>What a poller reads off an entry: \<open>active\<close>, \<open>chunksFound\<close>, \<open>depTotal\<close>, \<open>depDone\<close>.\<close>

definition observed :: "progress \<Rightarrow> bool \<times> nat \<times> nat option \<times> nat" where
  "observed p = (p_active p, p_chunksFound p, p_depTotal p, p_depDone p)"

definition stats_of :: "(js_error \<times> tracker) + (decoded \<times> tracker) \<Rightarrow> progress option" where
  "stats_of r = (case r of Inl e \<Rightarrow> None | Inr (d, tr) \<Rightarrow> d_stats d)"

text \<open>
  The tracker along \<open>reconstruct("aa")\<close> on the example node: after the decode of \<open>aa\<close>
  itself (which ends in \<open>completeProgress\<close>); after \<open>handleHtmlSvgDependencies\<close> has found
  the one dependency \<open>bb\<close> and called \<open>setDependencyPlan\<close>; after the decode of \<open>bb\<close>, which
  \<open>ensureInscriptionDecoded\<close> runs under the progress key of \<open>aa\<close>; and after
  \<open>incrementDependencyDone\<close>.
\<close>

definition tracker_parent :: tracker where
  "tracker_parent =
     tracker_after (decodeDoginalsChain example_clock example_node ''aa'' 5000 ''aa'' 20000 empty_tracker)"

definition tracker_planned :: tracker where
  "tracker_planned = setDependencyPlan example_clock ''aa'' 1 tracker_parent"

definition tracker_child :: tracker where
  "tracker_child =
     tracker_after (decodeDoginalsChain example_clock example_node ''bb'' 5000 ''aa'' 20000 tracker_planned)"

definition tracker_done :: tracker where
  "tracker_done = incrementDependencyDone example_clock ''aa'' tracker_child"

section \<open>Inscription builder\<close>

definition MAX_SCRIPT_ELEMENT_SIZE :: nat where
  "MAX_SCRIPT_ELEMENT_SIZE = 520"

definition MAX_CHUNK_LEN :: nat where
  "MAX_CHUNK_LEN = 240"

definition MAX_PAYLOAD_LEN :: nat where
  "MAX_PAYLOAD_LEN = 1500"

definition OP_PUSHDATA1 :: nat where "OP_PUSHDATA1 = 76"
definition OP_PUSHDATA2 :: nat where "OP_PUSHDATA2 = 77"
definition OP_PUSHDATA4 :: nat where "OP_PUSHDATA4 = 78"
definition OP_TRUE :: nat where "OP_TRUE = 81"
definition OP_DROP :: nat where "OP_DROP = 117"
definition OP_CHECKSIGVERIFY :: nat where "OP_CHECKSIGVERIFY = 173"
definition SIGHASH_ALL :: byte where "SIGHASH_ALL = 1"

text \<open>A number in \<open>k\<close> bytes, least significant first (\<open>writeUInt16LE\<close>, \<open>writeUInt32LE\<close>).\<close>

fun le_bytes :: "nat \<Rightarrow> nat \<Rightarrow> buffer" where
  "le_bytes 0 n = []"
| "le_bytes (Suc k) n = of_nat (n mod 256) # le_bytes k (n div 256)"

text \<open>
  \<open>Script.toBuffer()\<close> of the bitcore library, chunk by chunk: the opcode byte, and for
  a chunk with data the length prefix its push opcode asks for and the data.
\<close>

definition chunk_bytes :: "chunk \<Rightarrow> buffer" where
  "chunk_bytes c =
     of_nat (opcodenum c) #
     (case buf c of
        None \<Rightarrow> []
      | Some b \<Rightarrow>
          if opcodenum c < OP_PUSHDATA1 then b
          else if opcodenum c = OP_PUSHDATA1 then le_bytes 1 (the (len c)) @ b
          else if opcodenum c = OP_PUSHDATA2 then le_bytes 2 (the (len c)) @ b
          else if opcodenum c = OP_PUSHDATA4 then le_bytes 4 (the (len c)) @ b
          else [])"

definition toBuffer :: "chunk list \<Rightarrow> buffer" where
  "toBuffer s = concat (map chunk_bytes s)"

text \<open>
  Transactions. A transaction id is the hash of the transaction; the hash is ideal:
  \<open>TxHash\<close> is injective. \<open>Utxo\<close> is the id of a transaction from outside, as the wallet
  file names it. An output pays to the script hash of a lock script (the hash again
  ideal) or to an address.
\<close>

datatype out_script = P2SH "chunk list" | PayTo string

datatype txout = TxOut (o_script: out_script) (o_satoshis: nat)

datatype txid = Utxo string | TxHash tx
  and tx = Tx (t_inputs: "txin list") (t_outputs: "txout list")
  and txin = TxIn (i_prevTxId: txid) (i_outputIndex: nat) (i_satoshis: nat) (i_script: "chunk list")

record utxo =
  u_txid :: txid
  u_vout :: nat
  u_satoshis :: nat

record wallet =
  address :: string
  utxos :: "utxo list"

text \<open>
  What the builder takes from the key and from the bitcore library: the public key, the
  signature of a transaction input against a lock script (\<open>Transaction.sighash.sign\<close>),
  the unlocking script that \<open>tx.sign\<close> gives a wallet input, and the fee \<open>tx.getFee()\<close>
  estimates for a transaction.
\<close>

record signer =
  publicKey :: buffer
  sighash_sign :: "tx \<Rightarrow> chunk list \<Rightarrow> buffer"
  wallet_unlock :: "utxo \<Rightarrow> chunk list"
  getFee :: "tx \<Rightarrow> nat"

definition inputAmount :: "tx \<Rightarrow> nat" where
  "inputAmount t = sum_list (map i_satoshis (t_inputs t))"

definition outputAmount :: "tx \<Rightarrow> nat" where
  "outputAmount t = sum_list (map o_satoshis (t_outputs t))"

text \<open>\<open>tx.from(utxo)\<close> followed by \<open>tx.sign(wallet.privkey)\<close>: one more input, with its signature.\<close>

definition tx_from :: "signer \<Rightarrow> utxo \<Rightarrow> tx \<Rightarrow> tx" where
  "tx_from sg u t =
     Tx (t_inputs t @ [TxIn (u_txid u) (u_vout u) (u_satoshis u) (wallet_unlock sg u)]) (t_outputs t)"

text \<open>
  The \<open>for (const utxo of wallet.utxos)\<close> loop of \<open>fund\<close>. The transaction carries its
  outputs without the change output, which \<open>tx.change\<close> recomputes.
\<close>

fun fund_loop :: "signer \<Rightarrow> utxo list \<Rightarrow> tx \<Rightarrow> tx" where
  "fund_loop sg [] t = t"
| "fund_loop sg (u # us) t =
     (if t_inputs t \<noteq> [] \<and> t_outputs t \<noteq> [] \<and> inputAmount t \<ge> outputAmount t + getFee sg t
      then t else fund_loop sg us (tx_from sg u t))"

text \<open>\<open>tx.change(address)\<close>: what the inputs leave over the outputs and the fee goes back.\<close>

definition with_change :: "signer \<Rightarrow> string \<Rightarrow> tx \<Rightarrow> tx" where
  "with_change sg addr t =
     (if inputAmount t > outputAmount t + getFee sg t
      then Tx (t_inputs t) (t_outputs t @ [TxOut (PayTo addr) (inputAmount t - outputAmount t - getFee sg t)])
      else t)"

definition fund :: "signer \<Rightarrow> wallet \<Rightarrow> tx \<Rightarrow> js_error + tx" where
  "fund sg w t =
     (let t' = fund_loop sg (utxos w) t
      in if inputAmount t' < outputAmount t' + getFee sg t' then Inl (Error ''not enough funds'')
         else Inr (with_change sg (address w) t'))"

text \<open>\<open>updateWallet\<close>, without the write of the wallet file.\<close>

definition spent_by :: "tx \<Rightarrow> utxo \<Rightarrow> bool" where
  "spent_by t u = list_ex (\<lambda>i. i_prevTxId i = u_txid u \<and> i_outputIndex i = u_vout u) (t_inputs t)"

definition own_outputs :: "string \<Rightarrow> tx \<Rightarrow> utxo list" where
  "own_outputs addr t =
     concat (map (\<lambda>(vout, out). if o_script out = PayTo addr
                    then [\<lparr> u_txid = TxHash t, u_vout = vout, u_satoshis = o_satoshis out \<rparr>] else [])
               (zip [0 ..< length (t_outputs t)] (t_outputs t)))"

definition updateWallet :: "wallet \<Rightarrow> tx \<Rightarrow> wallet" where
  "updateWallet w t = w\<lparr>utxos := filter (\<lambda>u. \<not> spent_by t u) (utxos w) @ own_outputs (address w) t\<rparr>"

text \<open>The first \<open>while (data.length)\<close> loop: parts of at most 240 bytes.\<close>

function split_parts :: "buffer \<Rightarrow> buffer list" where
  "split_parts data =
     (if length data = 0 then []
      else take (min MAX_CHUNK_LEN (length data)) data #
           split_parts (drop (min MAX_CHUNK_LEN (length data)) data))"
  by pat_completeness auto
termination
  by (relation "measure length") (auto simp: MAX_CHUNK_LEN_def)

declare split_parts.simps [simp del]

text \<open>\<open>parts.forEach((part, n) => ...)\<close>: the marker and the data of each part, \<open>n\<close> counting up.\<close>

fun part_chunks :: "nat \<Rightarrow> nat \<Rightarrow> buffer list \<Rightarrow> chunk list" where
  "part_chunks count n [] = []"
| "part_chunks count n (part # rest) =
     numberToChunk (count - n - 1) # bufferToChunk part # part_chunks count (n + 1) rest"

definition inscription_chunks :: "string \<Rightarrow> buffer \<Rightarrow> chunk list" where
  "inscription_chunks contentType data =
     bufferToChunk (bytes_of ''ord'') #
     numberToChunk (length (split_parts data)) #
     bufferToChunk (bytes_of contentType) #
     part_chunks (length (split_parts data)) 0 (split_parts data)"

text \<open>
  The inner \<open>while (partial.toBuffer().length <= MAX_PAYLOAD_LEN && inscription.chunks.length)\<close>
  loop: two chunks move at a time. With one chunk left the second \<open>shift()\<close> gives
  \<open>undefined\<close>, and the next \<open>toBuffer()\<close> throws.
\<close>

function fill_partial :: "chunk list \<Rightarrow> chunk list \<Rightarrow> js_error + (chunk list \<times> chunk list)" where
  "fill_partial partial chunks =
     (if length (toBuffer partial) \<le> MAX_PAYLOAD_LEN \<and> chunks \<noteq> [] then
        (case chunks of
           a # b # rest \<Rightarrow> fill_partial (partial @ [a, b]) rest
         | _ \<Rightarrow> Inl TypeError)
      else Inr (partial, chunks))"
  by pat_completeness auto
termination
  by (relation "measure (\<lambda>(partial, chunks). length chunks)") auto

declare fill_partial.simps [simp del]

text \<open>The \<open>if (partial.toBuffer().length > MAX_PAYLOAD_LEN)\<close> that moves the last two chunks back.\<close>

definition revert_last :: "chunk list \<times> chunk list \<Rightarrow> chunk list \<times> chunk list" where
  "revert_last pc =
     (if length (toBuffer (fst pc)) > MAX_PAYLOAD_LEN
      then (take (length (fst pc) - 2) (fst pc), drop (length (fst pc) - 2) (fst pc) @ snd pc)
      else pc)"

definition lock_script :: "signer \<Rightarrow> chunk list \<Rightarrow> chunk list" where
  "lock_script sg partial =
     bufferToChunk (publicKey sg) # opcodeToChunk OP_CHECKSIGVERIFY #
     map (\<lambda>c. opcodeToChunk OP_DROP) partial @ [opcodeToChunk OP_TRUE]"

text \<open>The unlock script of a P2SH input: \<open><partial> <sig> <lock>\<close>.\<close>

definition unlock_script :: "signer \<Rightarrow> tx \<Rightarrow> chunk list \<Rightarrow> chunk list \<Rightarrow> chunk list" where
  "unlock_script sg t lastLock lastPartial =
     lastPartial @ [bufferToChunk (sighash_sign sg t lastLock @ [SIGHASH_ALL]),
                    bufferToChunk (toBuffer lastLock)]"

text \<open>\<open>tx.inputs[0].setScript(unlock)\<close>.\<close>

definition setScript0 :: "chunk list \<Rightarrow> tx \<Rightarrow> tx" where
  "setScript0 s t =
     (case t_inputs t of
        [] \<Rightarrow> t
      | i # is \<Rightarrow> Tx (TxIn (i_prevTxId i) (i_outputIndex i) (i_satoshis i) s # is) (t_outputs t))"

text \<open>The variables of \<open>inscribe\<close> that live across its main loop.\<close>

record build =
  b_txs :: "tx list"
  b_wallet :: wallet
  b_chunks :: "chunk list"
  b_p2shInput :: "txin option"
  b_lastLock :: "chunk list"
  b_lastPartial :: "chunk list"

text \<open>
  Fund a transaction, unlock its P2SH input if it has one, book it in the wallet and
  append it: the second half of the loop body, and all of the reveal.
\<close>

definition finish_tx :: "signer \<Rightarrow> build \<Rightarrow> tx \<Rightarrow> js_error + (tx \<times> build)" where
  "finish_tx sg b t =
     (case fund sg (b_wallet b) t of
        Inl e \<Rightarrow> Inl e
      | Inr funded \<Rightarrow>
          (let sgn_tx = (case b_p2shInput b of
                           None \<Rightarrow> funded
                         | Some i \<Rightarrow>
                             setScript0 (unlock_script sg funded (b_lastLock b) (b_lastPartial b)) funded)
           in Inr (sgn_tx, b\<lparr> b_wallet := updateWallet (b_wallet b) sgn_tx,
                               b_txs := b_txs b @ [sgn_tx] \<rparr>)))"

text \<open>One turn of \<open>while (inscription.chunks.length)\<close>.\<close>

definition commit_step :: "signer \<Rightarrow> build \<Rightarrow> js_error + build" where
  "commit_step sg b =
     (case (if b_txs b = [] then fill_partial (take 1 (b_chunks b)) (drop 1 (b_chunks b))
            else fill_partial [] (b_chunks b)) of
        Inl e \<Rightarrow> Inl e
      | Inr filled \<Rightarrow>
          (let (partial, rest) = revert_last filled;
               lock = lock_script sg partial;
               t = Tx (case b_p2shInput b of None \<Rightarrow> [] | Some i \<Rightarrow> [i]) [TxOut (P2SH lock) 100000]
           in case finish_tx sg b t of
                Inl e \<Rightarrow> Inl e
              | Inr (sgn_tx, b') \<Rightarrow>
                  Inr (b'\<lparr> b_chunks := rest,
                           b_p2shInput := Some (TxIn (TxHash sgn_tx) 0 100000 []),
                           b_lastLock := lock,
                           b_lastPartial := partial \<rparr>)))"

text \<open>
  The main loop. A turn that moves no chunk (a content type too long for any partial)
  repeats for ever, or until the funds run out; \<open>fuel\<close> bounds the turns, and \<open>None\<close> is
  the loop that has not ended within them.
\<close>

fun commit_loop :: "nat \<Rightarrow> signer \<Rightarrow> build \<Rightarrow> (js_error + build) option" where
  "commit_loop fuel sg b =
     (if b_chunks b = [] then Some (Inr b)
      else (case fuel of
              0 \<Rightarrow> None
            | Suc k \<Rightarrow> (case commit_step sg b of
                          Inl e \<Rightarrow> Some (Inl e)
                        | Inr b' \<Rightarrow> commit_loop k sg b')))"

declare commit_loop.simps [simp del]

definition inscribe ::
  "nat \<Rightarrow> signer \<Rightarrow> wallet \<Rightarrow> string \<Rightarrow> string \<Rightarrow> buffer \<Rightarrow> (js_error + tx list) option" where
  "inscribe fuel sg w addr contentType data =
     (case commit_loop fuel sg
             \<lparr> b_txs = [], b_wallet = w, b_chunks = inscription_chunks contentType data,
               b_p2shInput = None, b_lastLock = [], b_lastPartial = [] \<rparr> of
        None \<Rightarrow> None
      | Some (Inl e) \<Rightarrow> Some (Inl e)
      | Some (Inr b) \<Rightarrow>
          (case finish_tx sg b
                  (Tx (case b_p2shInput b of None \<Rightarrow> [] | Some i \<Rightarrow> [i]) [TxOut (PayTo addr) 100000]) of
             Inl e \<Rightarrow> Some (Inl e)
           | Inr (sgn_tx, b') \<Rightarrow> Some (Inr (b_txs b'))))"

section \<open>Broadcaster and pending journal\<close>

text \<open>
  An error thrown by the HTTP client: \<open>e.response.data.error.message\<close> and \<open>e.message\<close>,
  each possibly missing.
\<close>

record rpc_error =
  response_message :: "string option"
  e_message :: "string option"

text \<open>\<open>e?.response?.data?.error?.message || e?.message || ''\<close>.\<close>

definition error_msg :: "rpc_error \<Rightarrow> string" where
  "error_msg e =
     (case response_message e of
        Some m \<Rightarrow> if m \<noteq> [] then m else (case e_message e of Some m' \<Rightarrow> m' | None \<Rightarrow> [])
      | None \<Rightarrow> (case e_message e of Some m' \<Rightarrow> m' | None \<Rightarrow> []))"

text \<open>\<open>s.includes(p)\<close>.\<close>

fun str_includes :: "string \<Rightarrow> string \<Rightarrow> bool" where
  "str_includes [] p = (p = [])"
| "str_includes (c # cs) p = (startsWith (c # cs) p \<or> str_includes cs p)"

text \<open>
  The node's answer to a \<open>sendrawtransaction\<close>. \<open>replies n\<close> is the answer to the post
  number \<open>n\<close> of the process, so any run of answers can be given.
\<close>

datatype reply = Accepted | Rejected rpc_error

text \<open>
  \<open>broadcast(tx, retry)\<close>, from the post number it starts at: the error it throws, if any,
  and the post number it ends at. With \<open>retry\<close> it posts again for as long as the node
  answers \<open>too-long-mempool-chain\<close>, which may be for ever (\<open>None\<close>). The bookkeeping of
  the wallet file after a successful post is not part of the model.
\<close>

partial_function (option) broadcast ::
  "(nat \<Rightarrow> reply) \<Rightarrow> bool \<Rightarrow> nat \<Rightarrow> (rpc_error option \<times> nat) option" where
  "broadcast replies retry posts =
     (case replies posts of
        Accepted \<Rightarrow> Some (None, posts + 1)
      | Rejected e \<Rightarrow>
          if \<not> retry then Some (Some e, posts + 1)
          else if str_includes (error_msg e) ''too-long-mempool-chain''
          then broadcast replies retry (posts + 1)
          else Some (Some e, posts + 1))"

text \<open>
  The state of the broadcasting process: the posts made, and \<open>pending-txs.json\<close>
  (\<open>None\<close>: no such file), which holds serialized transactions; a serialized transaction
  stands for the transaction it was made from.
\<close>

record bstate =
  posts :: nat
  pending :: "tx list option"

datatype 'a process = Returned 'a | Exited nat

text \<open>A thrown error that \<open>broadcastAll\<close> takes as "already sent".\<close>

definition already_sent :: "rpc_error \<Rightarrow> bool" where
  "already_sent e =
     (str_includes (error_msg e) ''bad-txns-inputs-spent'' \<or>
      str_includes (error_msg e) ''already in block chain'')"

text \<open>
  The \<open>for (let i = 0; i < txs.length; i++)\<close> loop of \<open>broadcastAll\<close>, on \<open>txs.slice(i)\<close>:
  it returns when the loop ends, or exits the process with the journal written.
\<close>

fun broadcast_from ::
  "(nat \<Rightarrow> reply) \<Rightarrow> bool \<Rightarrow> tx list \<Rightarrow> bstate \<Rightarrow> (unit process \<times> bstate) option" where
  "broadcast_from replies retry [] st = Some (Returned (), st)"
| "broadcast_from replies retry (t # ts) st =
     (case broadcast replies retry (posts st) of
        None \<Rightarrow> None
      | Some (None, n) \<Rightarrow> broadcast_from replies retry ts (st\<lparr>posts := n\<rparr>)
      | Some (Some e, n) \<Rightarrow>
          if already_sent e then broadcast_from replies retry ts (st\<lparr>posts := n\<rparr>)
          else Some (Exited 1, st\<lparr>posts := n, pending := Some (t # ts)\<rparr>))"

record broadcast_result =
  txids :: "txid list"
  inscriptionTxid :: "txid option"

definition broadcastAll ::
  "(nat \<Rightarrow> reply) \<Rightarrow> bool \<Rightarrow> tx list \<Rightarrow> bstate \<Rightarrow> (broadcast_result process \<times> bstate) option" where
  "broadcastAll replies retry txs st =
     (case broadcast_from replies retry txs st of
        None \<Rightarrow> None
      | Some (Exited c, st') \<Rightarrow> Some (Exited c, st')
      | Some (Returned u, st') \<Rightarrow>
          Some (Returned \<lparr> txids = map TxHash txs,
                            inscriptionTxid =
                              (if length txs > 1 then Some (TxHash (txs ! 1))
                               else (case txs of [] \<Rightarrow> None | t # ts \<Rightarrow> Some (TxHash t))) \<rparr>,
                st'\<lparr>pending := None\<rparr>))"

text \<open>
  Where the broadcasts of a run of transactions end when each is accepted or taken as
  already sent: the post number after the last; \<open>None\<close> when one of them fails
  otherwise or never ends.
\<close>

fun sent_through :: "(nat \<Rightarrow> reply) \<Rightarrow> bool \<Rightarrow> tx list \<Rightarrow> nat \<Rightarrow> nat option" where
  "sent_through replies retry [] n = Some n"
| "sent_through replies retry (t # ts) n =
     (case broadcast replies retry n of
        None \<Rightarrow> None
      | Some (None, n') \<Rightarrow> sent_through replies retry ts n'
      | Some (Some e, n') \<Rightarrow> if already_sent e then sent_through replies retry ts n' else None)"

text \<open>An example: three transactions, and a node that accepts the first post and rejects the rest.\<close>

definition tx_a :: tx where
  "tx_a = Tx [TxIn (Utxo ''f0'') 0 500000 []] [TxOut (PayTo ''D1'') 100000]"

definition tx_b :: tx where
  "tx_b = Tx [TxIn (TxHash tx_a) 0 100000 []] [TxOut (PayTo ''D2'') 50000]"

definition tx_c :: tx where
  "tx_c = Tx [TxIn (TxHash tx_b) 0 50000 []] [TxOut (PayTo ''D3'') 20000]"

definition fee_error :: rpc_error where
  "fee_error = \<lparr> response_message = Some ''66: insufficient priority'',
                  e_message = Some ''Request failed with status code 500'' \<rparr>"

definition second_rejected :: "nat \<Rightarrow> reply" where
  "second_rejected n = (if n = 0 then Accepted else Rejected fee_error)"

section \<open>Bulk mint controller\<close>

text \<open>What \<open>runMintWave\<close> resolves to: the exit code of the child process, whether its
  output shows \<open>too-long-mempool-chain\<close>, and the inscription txids it printed.\<close>

record wave_result =
  exitCode :: nat
  chainLimit :: bool
  mintedTxids :: "string list"

text \<open>
  What the controller does, in order: a normal wave and a test wave (with the count asked
  for and the result), the deletion of the pending journal, a wallet sync (and whether
  it succeeded within its retries), the wait for a transaction to confirm or leave the
  mempool, the 30 second sleep, and the two ways the stream ends.
\<close>

datatype event =
    Wave nat wave_result
  | TestWave nat wave_result
  | DeletePending
  | Sync bool
  | WaitConfirm string
  | Sleep30
  | MintError
  | Done

text \<open>
  The surroundings of a job: the result of the wave number \<open>n\<close>, the outcome of the wallet
  sync number \<open>n\<close>, and the value of \<open>cancelled\<close> at the test number \<open>n\<close> of that flag.
\<close>

record surroundings =
  wave_at :: "nat \<Rightarrow> wave_result"
  sync_at :: "nat \<Rightarrow> bool"
  cancelled_at :: "nat \<Rightarrow> bool"

text \<open>The main loop state, and how many waves, syncs and flag tests there have been.\<close>

record job =
  completed :: nat
  allTxids :: "string list"
  lastSuccessfulTxid :: "string option"
  waves_run :: nat
  syncs_run :: nat
  flag_tests :: nat

definition MAX_PER_WAVE :: nat where
  "MAX_PER_WAVE = 12"

text \<open>\<open>for (const txid of wave.mintedTxids) if (!allTxids.includes(txid)) allTxids.push(txid)\<close>.\<close>

fun push_new :: "string list \<Rightarrow> string list \<Rightarrow> string list" where
  "push_new acc [] = acc"
| "push_new acc (t # ts) = push_new (if t \<in> set acc then acc else acc @ [t]) ts"

text \<open>The \<open>if (wave.mintedTxids.length) { ... }\<close> block: count whatever succeeded.\<close>

definition count_wave :: "wave_result \<Rightarrow> job \<Rightarrow> job" where
  "count_wave w j =
     (if mintedTxids w = [] then j
      else j\<lparr> allTxids := push_new (allTxids j) (mintedTxids w),
               completed := completed j + length (mintedTxids w),
               lastSuccessfulTxid := Some (last (mintedTxids w)) \<rparr>)"

text \<open>
  The transaction to watch after a wave that ended well: the last it minted, or else the
  last successful one.
\<close>

definition watch_after :: "wave_result \<Rightarrow> job \<Rightarrow> string option" where
  "watch_after w j = (if mintedTxids w \<noteq> [] then Some (last (mintedTxids w)) else lastSuccessfulTxid j)"

text \<open>
  The transaction to watch when the test wave hit the chain limit too:
  \<open>lastSuccessfulTxid\<close>, or else the last of \<open>allTxids\<close>.
\<close>

definition watch_known :: "job \<Rightarrow> string option" where
  "watch_known j =
     (case lastSuccessfulTxid j of
        Some t \<Rightarrow> Some t
      | None \<Rightarrow> (if allTxids j \<noteq> [] then Some (last (allTxids j)) else None))"

text \<open>\<open>waitForTxChainClear(watchTxid, ...)\<close> if there is a txid to watch, \<open>sleep(30000)\<close> if not.\<close>

definition wait_for :: "string option \<Rightarrow> event" where
  "wait_for watch = (case watch of Some t \<Rightarrow> WaitConfirm t | None \<Rightarrow> Sleep30)"

text \<open>
  \<open>wallet = await syncWalletWithRetry()\<close> and what follows it everywhere in the loop:
  without a wallet the job ends with \<open>mintError\<close>, with one it goes on with \<open>rest\<close>.
\<close>

definition sync_then :: "surroundings \<Rightarrow> job \<Rightarrow> (job \<Rightarrow> event list) \<Rightarrow> event list" where
  "sync_then env j rest =
     Sync (sync_at env (syncs_run j)) #
     (if sync_at env (syncs_run j) then rest (j\<lparr>syncs_run := syncs_run j + 1\<rparr>) else [MintError])"

text \<open>
  The test wave and what follows it, from \<open>const testWave = await runMintWave(testWaveCount)\<close>
  to the end of the loop body; \<open>again\<close> is the next turn of the loop.
\<close>

definition test_wave_part ::
  "surroundings \<Rightarrow> nat \<Rightarrow> job \<Rightarrow> (job \<Rightarrow> event list) \<Rightarrow> event list" where
  "test_wave_part env total_mints j again =
     (let testWave = wave_at env (waves_run j);
          j1 = j\<lparr>waves_run := waves_run j + 1, flag_tests := flag_tests j + 1\<rparr>
      in TestWave (min MAX_PER_WAVE (total_mints - completed j)) testWave #
         (if cancelled_at env (flag_tests j) then [Done]
          else
            (let j2 = count_wave testWave j1
             in if exitCode testWave = 0 \<and> \<not> chainLimit testWave
                then wait_for (watch_after testWave j2) # sync_then env j2 again
                else if exitCode testWave \<noteq> 0 \<and> \<not> chainLimit testWave
                then [MintError]
                else wait_for (watch_known j2) # sync_then env j2 again)))"

text \<open>The mempool chain limit path, from \<open>await deletePendingFile()\<close> on.\<close>

definition chain_limit_part ::
  "surroundings \<Rightarrow> nat \<Rightarrow> job \<Rightarrow> (job \<Rightarrow> event list) \<Rightarrow> event list" where
  "chain_limit_part env total_mints j again =
     DeletePending #
     (if total_mints \<le> completed j then [Done]
      else sync_then env j (\<lambda>j'. test_wave_part env total_mints j' again))"

text \<open>One turn of the loop, from \<open>const wave = await runMintWave(waveCount)\<close> on.\<close>

definition wave_part ::
  "surroundings \<Rightarrow> nat \<Rightarrow> job \<Rightarrow> (job \<Rightarrow> event list) \<Rightarrow> event list" where
  "wave_part env total_mints j again =
     (let wave = wave_at env (waves_run j);
          j1 = j\<lparr>waves_run := waves_run j + 1, flag_tests := flag_tests j + 1\<rparr>
      in Wave (min MAX_PER_WAVE (total_mints - completed j)) wave #
         (if cancelled_at env (flag_tests j) then [Done]
          else
            (let j2 = count_wave wave j1
             in if exitCode wave = 0 \<and> \<not> chainLimit wave
                then wait_for (watch_after wave j2) # sync_then env j2 again
                else if exitCode wave \<noteq> 0 \<and> \<not> chainLimit wave
                then [MintError]
                else chain_limit_part env total_mints j2 again)))"

text \<open>
  The \<open>while (!cancelled && completed < total)\<close> loop and the \<open>done\<close> event after it, as the
  list of what it does. A wave may mint nothing, so the loop need not end; \<open>fuel\<close> bounds
  its turns, and at 0 the list stops where the loop stands.
\<close>

primrec mint_loop :: "nat \<Rightarrow> surroundings \<Rightarrow> nat \<Rightarrow> job \<Rightarrow> event list" where
  "mint_loop 0 env total_mints j = []"
| "mint_loop (Suc fuel) env total_mints j =
     (if cancelled_at env (flag_tests j) \<or> total_mints \<le> completed j then [Done]
      else wave_part env total_mints (j\<lparr>flag_tests := flag_tests j + 1\<rparr>)
             (mint_loop fuel env total_mints))"

definition new_job :: job where
  "new_job = \<lparr> completed = 0, allTxids = [], lastSuccessfulTxid = None,
               waves_run = 0, syncs_run = 0, flag_tests = 0 \<rparr>"

text \<open>
  The order of events that the claim about the chain limit asks for, as a machine that
  reads the events one by one. Its states: no chain limit pending; a wave has just shown
  the chain limit; the journal has been deleted; the wallet has been synced; the test
  wave has run, with its result; the wait after the test wave is over; a sync has
  failed; the job has ended.
\<close>

datatype phase =
    Normal
  | AfterLimit
  | AfterDelete
  | AfterSync
  | AfterTest wave_result
  | AfterWait
  | Failing
  | Ended

text \<open>The last transaction a job knows it has minted, after one more wave.\<close>

definition known_after :: "wave_result \<Rightarrow> string option \<Rightarrow> string option" where
  "known_after w known = (if mintedTxids w = [] then known else Some (last (mintedTxids w)))"

text \<open>
  One event, from a state: the next state, or \<open>None\<close> where the order is broken. After a
  test wave that showed the chain limit too, the claim as stated (\<open>stated\<close> true) asks for
  a wait on a transaction; as amended it asks for the wait on the known transaction
  when there is one and for the 30 second sleep when there is none. A \<open>done\<close> after a
  wave is the job cancelled.
\<close>

fun phase_step :: "bool \<Rightarrow> string option \<Rightarrow> phase \<Rightarrow> event \<Rightarrow> phase option" where
  "phase_step stated known Normal (Wave c r) = Some (if chainLimit r then AfterLimit else Normal)"
| "phase_step stated known Normal (TestWave c r) = None"
| "phase_step stated known Normal DeletePending = None"
| "phase_step stated known Normal MintError = Some Ended"
| "phase_step stated known Normal Done = Some Ended"
| "phase_step stated known Normal e = Some Normal"
| "phase_step stated known AfterLimit DeletePending = Some AfterDelete"
| "phase_step stated known AfterLimit Done = Some Ended"
| "phase_step stated known AfterLimit e = None"
| "phase_step stated known AfterDelete (Sync ok) = Some (if ok then AfterSync else Failing)"
| "phase_step stated known AfterDelete Done = Some Ended"
| "phase_step stated known AfterDelete e = None"
| "phase_step stated known AfterSync (TestWave c r) = Some (AfterTest r)"
| "phase_step stated known AfterSync e = None"
| "phase_step stated known (AfterTest r) Done = Some Ended"
| "phase_step stated known (AfterTest r) (WaitConfirm t) =
     (if chainLimit r then (if stated \<or> known = Some t then Some AfterWait else None)
      else if exitCode r \<noteq> 0 then None
      else Some AfterWait)"
| "phase_step stated known (AfterTest r) Sleep30 =
     (if chainLimit r then (if stated then None else if known = None then Some AfterWait else None)
      else if exitCode r \<noteq> 0 then None
      else Some AfterWait)"
| "phase_step stated known (AfterTest r) MintError =
     (if chainLimit r then None else if exitCode r \<noteq> 0 then Some Ended else None)"
| "phase_step stated known (AfterTest r) e = None"
| "phase_step stated known AfterWait (Sync ok) = Some (if ok then Normal else Failing)"
| "phase_step stated known AfterWait e = None"
| "phase_step stated known Failing MintError = Some Ended"
| "phase_step stated known Failing e = None"
| "phase_step stated known Ended e = None"

definition known_step :: "string option \<Rightarrow> event \<Rightarrow> string option" where
  "known_step known e =
     (case e of Wave c r \<Rightarrow> known_after r known | TestWave c r \<Rightarrow> known_after r known | _ \<Rightarrow> known)"

text \<open>A list of events keeps the order, from a state on.\<close>

fun keeps_order :: "bool \<Rightarrow> string option \<Rightarrow> phase \<Rightarrow> event list \<Rightarrow> bool" where
  "keeps_order stated known ph [] = True"
| "keeps_order stated known ph (e # es) =
     (case phase_step stated (known_step known e) ph e of
        None \<Rightarrow> False
      | Some ph' \<Rightarrow> keeps_order stated (known_step known e) ph' es)"

text \<open>
  An example: surroundings in which every wave shows the chain limit and mints nothing,
  every sync succeeds and nobody cancels.
\<close>

definition limit_result :: wave_result where
  "limit_result = \<lparr> exitCode = 1, chainLimit = True, mintedTxids = [] \<rparr>"

definition always_limit :: surroundings where
  "always_limit = \<lparr> wave_at = (\<lambda>n. limit_result), sync_at = (\<lambda>n. True), cancelled_at = (\<lambda>n. False) \<rparr>"

text \<open>
  What holds of the job throughout: without a last successful txid there is no txid in
  \<open>allTxids\<close> either.
\<close>

definition job_ok :: "job \<Rightarrow> bool" where
  "job_ok j = (lastSuccessfulTxid j = None \<longrightarrow> allTxids j = [])"

section \<open>The node's view of a built chain\<close>

text \<open>
  \<open>getrawtransaction\<close> prints an input script as asm the way Dogecoin Core's
  \<open>ScriptToAsmStr\<close> does: data of at most 4 bytes as the decimal script number it
  encodes (which is why the three bytes of \<open>ord\<close> appear as \<open>6582895\<close>), longer data as
  hex, with the hash type of a well-formed signature decoded, and the small-integer
  opcodes as their numbers. Opcodes the builder never writes are printed as
  \<open>OP_UNKNOWN\<close> here.
\<close>

definition le_value :: "buffer \<Rightarrow> nat" where
  "le_value b = foldr (\<lambda>x acc. unat x + 256 * acc) b 0"

text \<open>A script number: little-endian magnitude, the top bit of the last byte is the sign.\<close>

definition scriptnum :: "buffer \<Rightarrow> int" where
  "scriptnum b =
     (if b = [] then 0
      else if 128 \<le> unat (last b) then - (int (le_value b) - int (128 * 256 ^ (length b - 1)))
      else int (le_value b))"

definition show_int :: "int \<Rightarrow> string" where
  "show_int i = (if i < 0 then CHR ''-'' # show_nat (nat (- i)) else show_nat (nat i))"

text \<open>The strict DER shape of a signature with its hash type byte.\<close>

definition der_shape :: "nat list \<Rightarrow> bool" where
  "der_shape s =
     (9 \<le> length s \<and> length s \<le> 73 \<and> s ! 0 = 0x30 \<and> s ! 1 = length s - 3 \<and>
      5 + s ! 3 < length s \<and>
      s ! 3 + s ! (5 + s ! 3) + 7 = length s \<and>
      s ! 2 = 0x02 \<and> s ! 3 \<noteq> 0 \<and> s ! 4 < 0x80 \<and>
      (s ! 3 \<le> 1 \<or> s ! 4 \<noteq> 0 \<or> 0x80 \<le> s ! 5) \<and>
      s ! (s ! 3 + 4) = 0x02 \<and> s ! (5 + s ! 3) \<noteq> 0 \<and> s ! (s ! 3 + 6) < 0x80 \<and>
      (s ! (5 + s ! 3) \<le> 1 \<or> s ! (s ! 3 + 6) \<noteq> 0 \<or> 0x80 \<le> s ! (s ! 3 + 7)))"

definition sighash_name :: "nat \<Rightarrow> string option" where
  "sighash_name h =
     (if h = 0x01 then Some ''ALL'' else if h = 0x02 then Some ''NONE''
      else if h = 0x03 then Some ''SINGLE'' else if h = 0x81 then Some ''ALL|ANYONECANPAY''
      else if h = 0x82 then Some ''NONE|ANYONECANPAY''
      else if h = 0x83 then Some ''SINGLE|ANYONECANPAY'' else None)"

definition asm_data :: "buffer \<Rightarrow> string" where
  "asm_data b =
     (if length b \<le> 4 then show_int (scriptnum b)
      else if der_shape (map unat b) then
        (case sighash_name (unat (last b)) of
           Some name \<Rightarrow> hex_encode (butlast b) @ ''['' @ name @ '']''
         | None \<Rightarrow> hex_encode b)
      else hex_encode b)"

definition op_name :: "nat \<Rightarrow> string" where
  "op_name n =
     (if n = 79 then ''-1''
      else if 81 \<le> n \<and> n \<le> 96 then show_nat (n - 80)
      else if n = OP_DROP then ''OP_DROP''
      else if n = OP_CHECKSIGVERIFY then ''OP_CHECKSIGVERIFY''
      else ''OP_UNKNOWN'')"

definition asm_chunk :: "chunk \<Rightarrow> string" where
  "asm_chunk c =
     (if opcodenum c \<le> OP_PUSHDATA4 then asm_data (case buf c of None \<Rightarrow> [] | Some b \<Rightarrow> b)
      else op_name (opcodenum c))"

fun join_spaces :: "string list \<Rightarrow> string" where
  "join_spaces [] = []"
| "join_spaces [t] = t"
| "join_spaces (t # ts) = t @ '' '' @ join_spaces ts"

definition asm_of :: "chunk list \<Rightarrow> string" where
  "asm_of s = join_spaces (map asm_chunk s)"

definition vin_of :: "txin \<Rightarrow> txid vin" where
  "vin_of i = \<lparr> v_txid = Some (i_prevTxId i), v_vout = Some (i_outputIndex i),
               v_asm = Some (asm_of (i_script i)) \<rparr>"

text \<open>
  A chain on a node: the node knows every transaction of the list with its inputs, and
  from each \<open>findNextOrdinalTx\<close> finds the next as the spender of its output 0.
\<close>

fun on_chain :: "txid node \<Rightarrow> nat \<Rightarrow> tx list \<Rightarrow> bool" where
  "on_chain nd depthBlocks [] = True"
| "on_chain nd depthBlocks [t] =
     (map_option r_vin (n_tx nd (TxHash t)) = Some (map vin_of (t_inputs t)))"
| "on_chain nd depthBlocks (t # t' # ts) =
     (map_option r_vin (n_tx nd (TxHash t)) = Some (map vin_of (t_inputs t)) \<and>
      map_option (\<lambda>(n, v, h). (n, v)) (findNextOrdinalTx nd (TxHash t) 0 depthBlocks) =
        Some (TxHash t', 0) \<and>
      on_chain nd depthBlocks (t' # ts))"

text \<open>The node on which the transactions of a list are confirmed one per block, in order.\<close>

definition node_of :: "tx list \<Rightarrow> txid node" where
  "node_of txs =
     \<lparr> n_tx = map_of (map (\<lambda>(h, t). (TxHash t, \<lparr> r_vin = map vin_of (t_inputs t), r_height = Some h \<rparr>))
                     (zip [0 ..< length txs] txs)),
       n_blocks = map (\<lambda>t. [\<lparr> b_txid = TxHash t, b_vin = map vin_of (t_inputs t) \<rparr>]) txs \<rparr>"

text \<open>
  What the builder's chain looks like. A transaction carries a partial envelope from its
  predecessor: its first input spends output 0 of the predecessor and unlocks it with
  \<open><partial> <sig> <lock>\<close>; its other inputs are wallet inputs.
\<close>

definition carries :: "signer \<Rightarrow> tx \<Rightarrow> chunk list \<Rightarrow> tx \<Rightarrow> bool" where
  "carries sg prev partial t =
     (\<exists>i more t'. t_inputs t = i # more \<and>
        i_prevTxId i = TxHash prev \<and> i_outputIndex i = 0 \<and>
        i_script i = unlock_script sg t' (lock_script sg partial) partial \<and>
        list_all (\<lambda>j. \<exists>u. i_script j = wallet_unlock sg u) more)"

text \<open>The chunks of a list of (marker, data) chunk pairs, in order.\<close>

definition flat2 :: "(chunk \<times> chunk) list \<Rightarrow> chunk list" where
  "flat2 cps = concat (map (\<lambda>(a, b). [a, b]) cps)"

text \<open>
  \<open>links sg prev partial cps ts\<close>: the transactions \<open>ts\<close> follow \<open>prev\<close>; the first of them
  carries \<open>partial\<close>, and the pairs \<open>cps\<close> still to be packed go, a non-empty run at a time,
  into the ones after it.
\<close>

inductive links :: "signer \<Rightarrow> tx \<Rightarrow> chunk list \<Rightarrow> (chunk \<times> chunk) list \<Rightarrow> tx list \<Rightarrow> bool"
  for sg :: signer where
  last_link: "carries sg prev partial t \<Longrightarrow> links sg prev partial [] [t]"
| next_link: "carries sg prev partial t \<Longrightarrow> seg \<noteq> [] \<Longrightarrow> links sg t (flat2 seg) rest ts \<Longrightarrow>
              links sg prev partial (seg @ rest) (t # ts)"

text \<open>The pairs of the envelope after \<open>ord\<close>: the part count with the content type, then each
  marker with its part.\<close>

fun part_pairs :: "nat \<Rightarrow> nat \<Rightarrow> buffer list \<Rightarrow> (chunk \<times> chunk) list" where
  "part_pairs count n [] = []"
| "part_pairs count n (part # rest) =
     (numberToChunk (count - n - 1), bufferToChunk part) # part_pairs count (n + 1) rest"

definition envelope_pairs :: "string \<Rightarrow> buffer \<Rightarrow> (chunk \<times> chunk) list" where
  "envelope_pairs contentType data =
     (numberToChunk (length (split_parts data)), bufferToChunk (bytes_of contentType)) #
     part_pairs (length (split_parts data)) 0 (split_parts data)"

text \<open>Printable characters other than the space, and tokens made of them.\<close>

definition plain :: "char \<Rightarrow> bool" where
  "plain c = (33 \<le> (of_char c :: nat) \<and> (of_char c :: nat) \<le> 126)"

definition token_ok :: "string \<Rightarrow> bool" where
  "token_ok t = (t \<noteq> [] \<and> list_all plain t)"

text \<open>The bytes a pair of chunks takes in a script, and pairs that fit a partial with room to spare.\<close>

definition pair_size :: "chunk \<times> chunk \<Rightarrow> nat" where
  "pair_size p = length (chunk_bytes (fst p)) + length (chunk_bytes (snd p))"

definition small_pairs :: "(chunk \<times> chunk) list \<Rightarrow> bool" where
  "small_pairs cps = list_all (\<lambda>p. pair_size p \<le> 1496) cps"

text \<open>
  The state of the builder's loop after a turn: the last transaction built is \<open>prev\<close>,
  its output 0 is the next P2SH input, \<open>partial\<close> with its lock waits to be revealed, and
  the chunks left are the pairs \<open>cps\<close>.
\<close>

definition after_turn :: "signer \<Rightarrow> build \<Rightarrow> tx \<Rightarrow> chunk list \<Rightarrow> (chunk \<times> chunk) list \<Rightarrow> bool" where
  "after_turn sg b prev partial cps =
     (b_txs b \<noteq> [] \<and> last (b_txs b) = prev \<and>
      b_p2shInput b = Some (TxIn (TxHash prev) 0 100000 []) \<and>
      b_lastPartial b = partial \<and> b_lastLock b = lock_script sg partial \<and>
      b_chunks b = flat2 cps)"


text \<open>
  Two states of the walker at the same place of a chain: the same transaction and output
  index, the same transactions seen, the genesis input found in both or in neither.
\<close>

definition same_place :: "'id walk \<Rightarrow> 'id walk \<Rightarrow> bool" where
  "same_place st st' =
     (w_txid st' = w_txid st \<and> w_processed st' = w_processed st \<and>
      w_voutIndex st' = w_voutIndex st)"
section \<open>Example chains\<close>

text \<open>
  A key whose signatures are 71 bytes of \<open>ab\<close>, a flat fee, and a wallet with one
  output of 10 DOGE at address \<open>D1\<close>.
\<close>

definition example_signer :: signer where
  "example_signer =
     \<lparr> publicKey = replicate 33 0x02,
       sighash_sign = (\<lambda>t l. replicate 71 0xAB),
       wallet_unlock = (\<lambda>u. [bufferToChunk (replicate 72 0xAB), bufferToChunk (replicate 33 0x02)]),
       getFee = (\<lambda>t. 1000000) \<rparr>"

definition example_wallet :: wallet where
  "example_wallet =
     \<lparr> address = ''D1'',
       utxos = [\<lparr> u_txid = Utxo ''f0'', u_vout = 0, u_satoshis = 1000000000 \<rparr>] \<rparr>"

text \<open>The transactions \<open>inscribe\<close> returned, none when it threw or did not end.\<close>

definition chain_of :: "(js_error + tx list) option \<Rightarrow> tx list" where
  "chain_of r = (case r of Some (Inr txs) \<Rightarrow> txs | _ \<Rightarrow> [])"

text \<open>
  Three inscriptions to \<open>D2\<close> from the example wallet: of the five bytes of \<open>hello\<close>, of
  1680 bytes (seven parts, more than one partial holds), and of the single byte 12.
\<close>

definition short_chain :: "tx list" where
  "short_chain =
     chain_of (inscribe 2 example_signer example_wallet ''D2'' ''text/plain'' (bytes_of ''hello''))"

definition long_chain :: "tx list" where
  "long_chain =
     chain_of (inscribe 3 example_signer example_wallet ''D2'' ''text/plain'' (replicate 1680 0x41))"

definition byte_chain :: "tx list" where
  "byte_chain =
     chain_of (inscribe 2 example_signer example_wallet ''D2'' ''text/plain'' [0x0c])"

text \<open>A node that accepts every post.\<close>

definition all_accepted :: "nat \<Rightarrow> reply" where
  "all_accepted n = Accepted"

text \<open>The bytes \<open>reconstructAndReturnBuffer\<close> writes for what the walker returned.\<close>

definition written_bytes :: "bool \<Rightarrow> (js_error \<times> tracker) + (decoded \<times> tracker) \<Rightarrow> buffer option" where
  "written_bytes skipOddHexPad r =
     (case r of Inl e \<Rightarrow> None | Inr (d, tr) \<Rightarrow> Some (resultBuf skipOddHexPad (d_dataHex d)))"
section \<open>Script numbers: encoder against decoder\<close>

lemma unat_byte_of_nat: "unat (of_nat n :: byte) = n mod 256"
  by (simp add: unat_of_nat)

lemma chunkToNumber_numberToChunk:
  "chunkToNumber (numberToChunk n) =
     Inr (Num (if n < 128 then n else ((n div 256) mod 256) * 255 + n mod 256))"
  by (simp add: chunkToNumber_def numberToChunk_def buf_at_def unat_byte_of_nat)

text \<open>
  Claim C10. The decoder \<open>chunkToNumber\<close> undoes the encoder \<open>numberToChunk\<close> exactly on
  \<open>0 \<le> n \<le> 255\<close>: there the round trip gives \<open>n\<close> back; for \<open>256 \<le> n < 65536\<close> it gives
  \<open>n - n div 256\<close> (the two-byte branch weighs the high byte with 255), and for no
  \<open>n \<ge> 256\<close> at all does it give \<open>n\<close>, so a remaining-chunk marker of 256 or more is
  misread.
\<close>

theorem chunkToNumber_left_inverse_upto_255:
  "(chunkToNumber (numberToChunk n) = Inr (Num n) \<longleftrightarrow> n \<le> 255) \<and>
   (256 \<le> n \<and> n < 65536 \<longrightarrow> chunkToNumber (numberToChunk n) = Inr (Num (n - n div 256)))"
proof -
  have small: "n \<le> 255 \<Longrightarrow> (if n < 128 then n else ((n div 256) mod 256) * 255 + n mod 256) = n"
    by simp
  have big: "256 \<le> n \<Longrightarrow> ((n div 256) mod 256) * 255 + n mod 256 < n"
  proof -
    assume h: "256 \<le> n"
    have "n = (n div 256) * 256 + n mod 256" by simp
    moreover have "(n div 256) mod 256 \<le> n div 256" by simp
    moreover have "1 \<le> n div 256" using h by simp
    ultimately show ?thesis by linarith
  qed
  have mid: "256 \<le> n \<Longrightarrow> n < 65536 \<Longrightarrow> ((n div 256) mod 256) * 255 + n mod 256 = n - n div 256"
  proof -
    assume h: "256 \<le> n" "n < 65536"
    have "n div 256 < 256" using h by simp
    then have "(n div 256) mod 256 = n div 256" by simp
    moreover have "n = (n div 256) * 256 + n mod 256" by simp
    ultimately show ?thesis by linarith
  qed
  show ?thesis
  proof (cases "n \<le> 255")
    case True
    then show ?thesis using small by (simp add: chunkToNumber_numberToChunk)
  next
    case False
    then have "256 \<le> n" by simp
    then show ?thesis using big mid by (simp add: chunkToNumber_numberToChunk)
  qed
qed

theorem chunkToNumber_left_inverse_witness:
  "(chunkToNumber (numberToChunk 200) = Inr (Num 200) \<longleftrightarrow> (200::nat) \<le> 255) \<and>
   chunkToNumber (numberToChunk 300) = Inr (Num 299)"
  using chunkToNumber_left_inverse_upto_255 [of 200] chunkToNumber_left_inverse_upto_255 [of 300]
  by simp

section \<open>The master index: what is written, and \<open>createdAt\<close>\<close>

lemma files_logged [simp]: "files (logged c d) = files d"
  by (simp add: logged_def)

lemma dirs_logged [simp]: "dirs (logged c d) = dirs d"
  by (simp add: logged_def)

lemma calls_logged [simp]: "calls (logged c d) = calls d @ [c]"
  by (simp add: logged_def)

lemma path_exists_logged [simp]: "path_exists (logged c d) p = path_exists d p"
  by (simp add: path_exists_def)

lemma files_ensureContentDir [simp]: "files (ensureContentDir d) = files d"
  by (simp add: ensureContentDir_def mkdirSync_def Let_def)

lemma master_path_dirs_ensureContentDir [simp]:
  "MASTER_PATH \<in> dirs (ensureContentDir d) \<longleftrightarrow> MASTER_PATH \<in> dirs d"
  by (simp add: ensureContentDir_def mkdirSync_def Let_def MASTER_PATH_def MASTER_DIR_def
      CONTENT_DIR_def)

lemma calls_ensureContentDir: "calls (ensureContentDir d) = calls d @ ensure_calls d"
  by (simp add: ensureContentDir_def ensure_calls_def mkdirSync_def Let_def path_exists_def
      MASTER_DIR_def CONTENT_DIR_def)

lemma fst_loadMaster: "fst (loadMaster d) = loaded d"
  by (auto simp: loadMaster_def loaded_def path_exists_def Let_def
      split: option.splits file_content.splits)

lemma loaded_saveMaster [simp]: "loaded (saveMaster m d) = m"
  by (simp add: loaded_def saveMaster_def writeFileSync_def)

lemma loaded_saveMaster_interrupted [simp]: "loaded (saveMaster_interrupted m d) = Map.empty"
  by (simp add: loaded_def saveMaster_interrupted_def writeFileSync_interrupted_def)

lemma loaded_upsert:
  "loaded (upsertMasterEntry meta now d) =
     (case meta of
        None \<Rightarrow> loaded d
      | Some m \<Rightarrow>
          if \<not> truthy (m ''inscriptionId'') then loaded d
          else (loaded d)(key_of (the (m ''inscriptionId'')) \<mapsto>
                 ((case loaded d (key_of (the (m ''inscriptionId''))) of
                     Some e \<Rightarrow> e | None \<Rightarrow> Map.empty) ++ m)
                   (''createdAt'' \<mapsto>
                      (if truthy ((case loaded d (key_of (the (m ''inscriptionId''))) of
                                     Some e \<Rightarrow> e | None \<Rightarrow> Map.empty) ''createdAt'')
                       then the ((case loaded d (key_of (the (m ''inscriptionId''))) of
                                     Some e \<Rightarrow> e | None \<Rightarrow> Map.empty) ''createdAt'')
                       else if truthy (m ''createdAt'') then the (m ''createdAt'')
                       else JStr now))))"
  by (simp add: upsertMasterEntry_def Let_def split_beta fst_loadMaster split: option.splits)

lemma createdAt_of_loaded:
  "createdAt_of d k = (case loaded d k of None \<Rightarrow> None | Some e \<Rightarrow> e ''createdAt'')"
  by (simp add: createdAt_of_def fst_loadMaster)

lemma truthy_the: "truthy v \<Longrightarrow> Some (the v) = v"
  by (cases v) auto

lemma upsert_keeps_createdAt:
  "truthy (createdAt_of d k) \<Longrightarrow>
   createdAt_of (upsertMasterEntry meta now d) k = createdAt_of d k"
  by (auto simp: createdAt_of_loaded loaded_upsert truthy_the split: option.splits)

lemma upserts_keep_createdAt:
  "truthy (createdAt_of d k) \<Longrightarrow> createdAt_of (upserts ups d) k = createdAt_of d k"
  by (induction ups arbitrary: d) (auto simp: upsert_keeps_createdAt)

lemma upsert_sets_createdAt:
  assumes "truthy (m ''inscriptionId'')"
  shows "createdAt_of (upsertMasterEntry (Some m) now d) (key_of (the (m ''inscriptionId''))) =
     Some (if truthy (createdAt_of d (key_of (the (m ''inscriptionId''))))
           then the (createdAt_of d (key_of (the (m ''inscriptionId''))))
           else if truthy (m ''createdAt'') then the (m ''createdAt'') else JStr now)"
  using assms by (auto simp: createdAt_of_loaded loaded_upsert split: option.splits)

text \<open>
  Claim C6 as stated: every \<open>saveMaster\<close> writes a temporary file and renames it over
  \<open>master.json\<close>, so that an interrupted write leaves the previous index intact. On the
  code this fails: saving over an index that holds one entry makes exactly one write, to
  \<open>master.json\<close> itself, with no rename; and when that write is interrupted the index
  that \<open>loadMaster\<close> then reads is no longer the previous one.
\<close>

theorem saveMaster_temp_rename_counterexample:
  "calls (saveMaster [''abi0'' \<mapsto> meta_later]
            ((saveMaster [''abi0'' \<mapsto> meta_first] fresh_disk)\<lparr>calls := []\<rparr>)) =
     [ExistsSync CONTENT_DIR, ExistsSync MASTER_DIR,
      WriteFileSync MASTER_PATH (Json [''abi0'' \<mapsto> meta_later])] \<and>
   fst (loadMaster (saveMaster [''abi0'' \<mapsto> meta_first] fresh_disk)) = [''abi0'' \<mapsto> meta_first] \<and>
   fst (loadMaster (saveMaster_interrupted [''abi0'' \<mapsto> meta_later]
                      (saveMaster [''abi0'' \<mapsto> meta_first] fresh_disk))) \<noteq> [''abi0'' \<mapsto> meta_first]"
proof -
  have a: "calls (saveMaster [''abi0'' \<mapsto> meta_later]
            ((saveMaster [''abi0'' \<mapsto> meta_first] fresh_disk)\<lparr>calls := []\<rparr>)) =
     [ExistsSync CONTENT_DIR, ExistsSync MASTER_DIR,
      WriteFileSync MASTER_PATH (Json [''abi0'' \<mapsto> meta_later])]"
    by (simp add: saveMaster_def writeFileSync_def calls_ensureContentDir ensure_calls_def
        path_exists_def fresh_disk_def ensureContentDir_def mkdirSync_def Let_def
        CONTENT_DIR_def MASTER_DIR_def)
  have b: "Map.empty \<noteq> [''abi0'' \<mapsto> meta_first]"
    by (metis map_upd_nonempty)
  show ?thesis using a b by (simp add: fst_loadMaster)
qed

text \<open>
  Claim C6 as amended: every \<open>saveMaster\<close> makes sure the content directories exist and
  then writes the new index straight to \<open>master.json\<close> in a single \<open>writeFileSync\<close>, with
  no temporary file and no rename; after an interrupted write \<open>loadMaster\<close> finds the
  file unreadable and returns the empty index.
\<close>

theorem saveMaster_writes_in_place:
  "calls (saveMaster m d) = calls d @ ensure_calls d @ [WriteFileSync MASTER_PATH (Json m)] \<and>
   fst (loadMaster (saveMaster m d)) = m \<and>
   fst (loadMaster (saveMaster_interrupted m d)) = Map.empty"
  by (simp add: fst_loadMaster)
     (simp add: saveMaster_def writeFileSync_def calls_ensureContentDir)

text \<open>
  Claim C7. An upsert for an inscription id leaves a \<open>createdAt\<close> in the index; on the
  first insert (no entry for the id yet) it is the metadata's own \<open>createdAt\<close> if it has
  one and the clock reading otherwise; and every later run of upserts, whatever their
  metadata and clock readings, leaves that \<open>createdAt\<close> as it is. The clock reading is an
  ISO timestamp, which is never the empty string.
\<close>

theorem upsertMasterEntry_createdAt_preserved:
  assumes "truthy (m ''inscriptionId'')" and "now \<noteq> []"
  shows "truthy (createdAt_of (upsertMasterEntry (Some m) now d) (key_of (the (m ''inscriptionId'')))) \<and>
    (fst (loadMaster d) (key_of (the (m ''inscriptionId''))) = None \<longrightarrow>
       createdAt_of (upsertMasterEntry (Some m) now d) (key_of (the (m ''inscriptionId''))) =
         Some (if truthy (m ''createdAt'') then the (m ''createdAt'') else JStr now)) \<and>
    (\<forall>ups. createdAt_of (upserts ups (upsertMasterEntry (Some m) now d)) (key_of (the (m ''inscriptionId''))) =
       createdAt_of (upsertMasterEntry (Some m) now d) (key_of (the (m ''inscriptionId''))))"
proof -
  let ?k = "key_of (the (m ''inscriptionId''))"
  let ?d1 = "upsertMasterEntry (Some m) now d"
  have set: "createdAt_of ?d1 ?k =
     Some (if truthy (createdAt_of d ?k) then the (createdAt_of d ?k)
           else if truthy (m ''createdAt'') then the (m ''createdAt'') else JStr now)"
    using assms(1) by (rule upsert_sets_createdAt)
  have t: "truthy (createdAt_of ?d1 ?k)"
    unfolding set using assms(2) by (simp add: truthy_the)
  have first: "fst (loadMaster d) ?k = None \<Longrightarrow>
       createdAt_of ?d1 ?k = Some (if truthy (m ''createdAt'') then the (m ''createdAt'') else JStr now)"
    unfolding set by (simp add: createdAt_of_def)
  from t first upserts_keep_createdAt [OF t] show ?thesis by blast
qed

theorem upsertMasterEntry_createdAt_witness:
  "truthy (meta_first ''inscriptionId'') \<and> ''2025-01-01T00:00:00.000Z'' \<noteq> [] \<and>
   fst (loadMaster fresh_disk) ''abi0'' = None \<and>
   createdAt_of (upsertMasterEntry (Some meta_first) ''2025-01-01T00:00:00.000Z'' fresh_disk) ''abi0'' =
     Some (JStr ''2025-01-01T00:00:00.000Z'') \<and>
   createdAt_of (upserts [(Some meta_later, ''2026-06-06T00:00:00.000Z'')]
     (upsertMasterEntry (Some meta_first) ''2025-01-01T00:00:00.000Z'' fresh_disk)) ''abi0'' =
     Some (JStr ''2025-01-01T00:00:00.000Z'')"
proof -
  have h1: "truthy (meta_first ''inscriptionId'')" by (simp add: meta_first_def)
  have h2: "''2025-01-01T00:00:00.000Z'' \<noteq> []" by simp
  have k: "key_of (the (meta_first ''inscriptionId'')) = ''abi0''" by (simp add: meta_first_def)
  have n: "fst (loadMaster fresh_disk) ''abi0'' = None"
    by (simp add: fst_loadMaster loaded_def fresh_disk_def)
  have c: "meta_first ''createdAt'' = None" by (simp add: meta_first_def)
  note main = upsertMasterEntry_createdAt_preserved
         [of meta_first "''2025-01-01T00:00:00.000Z''" fresh_disk, OF h1 h2, unfolded k]
  from main n have first:
    "createdAt_of (upsertMasterEntry (Some meta_first) ''2025-01-01T00:00:00.000Z'' fresh_disk) ''abi0'' =
       Some (JStr ''2025-01-01T00:00:00.000Z'')"
    by (simp add: c)
  from main have later:
    "createdAt_of (upserts [(Some meta_later, ''2026-06-06T00:00:00.000Z'')]
       (upsertMasterEntry (Some meta_first) ''2025-01-01T00:00:00.000Z'' fresh_disk)) ''abi0'' =
     createdAt_of (upsertMasterEntry (Some meta_first) ''2025-01-01T00:00:00.000Z'' fresh_disk) ''abi0''"
    by blast
  from h1 h2 n first later show ?thesis by simp
qed

section \<open>The genesis parser consumes (integer, hex) pairs\<close>

lemma consumed_pairs_zero_last:
  "list_ex pair_is_zero (consumed_pairs ts) \<longleftrightarrow> consumed_pairs ts \<noteq> [] \<and> pair_is_zero (last (consumed_pairs ts))"
  by (induction ts rule: consumed_pairs.induct) (auto simp: pair_is_zero_def)

lemma drop_two:
  "index + 1 < length xs \<Longrightarrow> drop index xs = xs ! index # xs ! (index + 1) # drop (index + 2) xs"
  by (simp add: Cons_nth_drop_Suc)

lemma drop_one_only:
  "index < length xs \<Longrightarrow> length xs \<le> index + 1 \<Longrightarrow> drop index xs = [xs ! index]"
  by (metis Cons_nth_drop_Suc Suc_eq_plus1 drop_all)

lemma asm_loop_pairs:
  "asm_loop asmData index d f l =
     \<lparr> dataHex = d @ concat (map snd (consumed_pairs (drop index asmData))),
       endOfData = list_ex pair_is_zero (consumed_pairs (drop index asmData)),
       chunksFound = f + length (consumed_pairs (drop index asmData)),
       lastNumChunks = (if consumed_pairs (drop index asmData) = [] then l
                        else parseInt10 (strip_minus (fst (last (consumed_pairs (drop index asmData)))))) \<rparr>"
proof (induction asmData index d f l rule: asm_loop.induct)
  case (1 asmData index dHex found lastN)
  show ?case
  proof (cases "index < length asmData")
    case False
    then show ?thesis by (simp add: asm_loop.simps[of asmData index])
  next
    case lt: True
    show ?thesis
    proof (cases "isIntegerString (asmData ! index)")
      case False
      have "consumed_pairs (drop index asmData) = []"
      proof (cases "length asmData \<le> index + 1")
        case True
        then show ?thesis using drop_one_only[OF lt True] by simp
      next
        case F: False
        then show ?thesis using drop_two[of index asmData] False by simp
      qed
      then show ?thesis using lt False by (simp add: asm_loop.simps[of asmData index])
    next
      case int: True
      show ?thesis
      proof (cases "length asmData \<le> index + 1")
        case True
        then show ?thesis using lt int drop_one_only[OF lt True]
          by (simp add: asm_loop.simps[of asmData index])
      next
        case two: False
        then have d2: "drop index asmData = asmData ! index # asmData ! (index + 1) # drop (index + 2) asmData"
          using drop_two[of index asmData] by simp
        show ?thesis
        proof (cases "parseInt10 (strip_minus (asmData ! index)) = IntV 0")
          case True
          then show ?thesis using lt int two
            by (simp add: asm_loop.simps[of asmData index] d2 pair_is_zero_def)
        next
          case False
          note ih = "1.IH"[OF lt int refl two False]
          show ?thesis using lt int two False ih
            by (simp add: asm_loop.simps[of asmData index] d2 pair_is_zero_def)
        qed
      qed
    qed
  qed
qed



lemma char_of_eq_iff: "(char_of (n::nat) = c) = (n mod 256 = of_char c)"
proof
  assume "char_of n = c"
  then have "of_char (char_of n) = (of_char c :: nat)" by simp
  then show "n mod 256 = of_char c" by (simp add: of_char_of)
next
  assume h: "n mod 256 = of_char c"
  have "char_of n = char_of (n mod 256)" by (simp add: char_of_mod_256)
  also have "\<dots> = c" unfolding h by simp
  finally show "char_of n = c" .
qed

lemmas token_eval =
  hexToAscii_def utf8_toString_def isIntegerString_def strip_minus_def is_digit_def
  parseInt10_def startsWith_def trimStart_def ws_len_def digits_value_def hexval_def
  pair_is_zero_def Let_def char_of_eq_iff

lemma processGenesisAsm_text_plain:
  "processGenesisAsm [''6582895'', ''0'', ''746578742f706c61696e'', ''0'', ''68656c6c6f''] =
     Inr \<lparr> dataHex = ''68656c6c6f'', endOfData = True, chunksFound = 1,
           lastNumChunks = IntV 0, mimeType = ''text/plain'' \<rparr>"
  by (simp add: processGenesisAsm_def asm_loop_pairs token_eval)

text \<open>
  Claim C3 as stated: the mime type returned is the UTF-8 decoding of the third token.
  On the code this fails when that decoding is empty: for the genesis tokens of an
  inscription with an empty content type (third token \<open>0\<close>) the parser returns
  \<open>application/octet-stream\<close>, while the decoding is the empty string.
\<close>

theorem processGenesisAsm_mime_counterexample:
  "processGenesisAsm [''6582895'', ''1'', ''0'', ''0'', ''68656c6c6f''] =
     Inr \<lparr> dataHex = ''68656c6c6f'', endOfData = True, chunksFound = 1,
           lastNumChunks = IntV 0, mimeType = ''application/octet-stream'' \<rparr> \<and>
   hexToAscii ([''6582895'', ''1'', ''0'', ''0'', ''68656c6c6f''] ! 2) = [] \<and>
   hexToAscii ([''6582895'', ''1'', ''0'', ''0'', ''68656c6c6f''] ! 2) \<noteq> ''application/octet-stream''"
  by (simp add: processGenesisAsm_def asm_loop_pairs token_eval)

text \<open>
  Claim C3 as amended: a stream of fewer than 3 tokens fails with an error. For a stream
  of at least 3 tokens the mime type is the UTF-8 decoding of the third token, or
  \<open>application/octet-stream\<close> when that decoding is empty; the parser consumes the
  (integer, hex) pairs that start at index 3 greedily, the data is their hex chunks in
  order, the count is their number, and \<open>endOfData\<close> is true exactly when a consumed pair
  has the integer 0 (whose chunk is part of the data); the last remaining-chunks
  value is that of the last consumed pair, or of the second token when there is none.
\<close>

theorem processGenesisAsm_consumes_pairs:
  "processGenesisAsm asmData =
     (if length asmData < 3 then Inl (Error ''Genesis asm too short.'')
      else Inr \<lparr> dataHex = concat (map snd (consumed_pairs (drop 3 asmData))),
                 endOfData = list_ex pair_is_zero (consumed_pairs (drop 3 asmData)),
                 chunksFound = length (consumed_pairs (drop 3 asmData)),
                 lastNumChunks =
                   (if consumed_pairs (drop 3 asmData) = []
                    then parseInt10 (strip_minus (asmData ! 1))
                    else parseInt10 (strip_minus (fst (last (consumed_pairs (drop 3 asmData)))))),
                 mimeType = (if hexToAscii (asmData ! 2) = [] then ''application/octet-stream''
                             else hexToAscii (asmData ! 2)) \<rparr>)"
  by (simp add: processGenesisAsm_def asm_loop_pairs Let_def)

section \<open>The type sniffer reads the head of the buffer\<close>

lemmas sniff_eval =
  token_eval sniffFileTypeFromBuffer_def gltf_heuristic_def key_colon_at_def quoted_def
  bytes_of_def ascii_slice_def png_magic_def jpg_magic_def known_type_def no_type_def
  unclosed_gltf_def json_object_delimited_def

lemma ascii_slice_take:
  "end \<le> n \<Longrightarrow> ascii_slice (take n b) start end = ascii_slice b start end"
proof -
  assume h: "end \<le> n"
  have "take (end - start) (drop start (take n b)) = take (end - start) (take (n - start) (drop start b))"
    by (simp only: drop_take)
  also have "\<dots> = take (min (end - start) (n - start)) (drop start b)"
    by (simp only: take_take)
  also have "min (end - start) (n - start) = end - start"
    using h by simp
  finally show ?thesis by (simp add: ascii_slice_def)
qed

lemma gltf_heuristic_take: "gltf_heuristic (take 256 b) = gltf_heuristic b"
  by (simp add: gltf_heuristic_def)

lemma sniff_take_256: "sniffFileTypeFromBuffer (take 256 b) = sniffFileTypeFromBuffer b"
proof -
  have len: "\<And>k. k \<le> 256 \<Longrightarrow> (length (take 256 b) < k) = (length b < k)"
    by auto
  have len': "\<And>k. k \<le> 256 \<Longrightarrow> (k \<le> length (take 256 b)) = (k \<le> length b)"
    by auto
  show ?thesis
    unfolding sniffFileTypeFromBuffer_def
    by (simp only: ascii_slice_take gltf_heuristic_take len len' take_take) simp
qed

lemma known_type_neq_no_type: "known_type m e \<noteq> no_type"
  by (simp add: known_type_def no_type_def)

lemma known_type_eq_iff: "known_type m e = known_type m' e' \<longleftrightarrow> m = m' \<and> e = e'"
  by (simp add: known_type_def)

lemma sniff_unclosed_gltf:
  "sniffFileTypeFromBuffer (bytes_of unclosed_gltf) = known_type ''model/gltf+json'' ''gltf''"
  by (simp add: sniff_eval)

lemma unclosed_gltf_not_delimited:
  "\<not> json_object_delimited (utf8_toString (bytes_of unclosed_gltf))"
  by (simp add: sniff_eval)

text \<open>
  Claim C9 as stated: a buffer is classified as GLTF-JSON only when it is valid JSON
  with an \<open>asset\<close> object at its root. On the code this fails: the 37 bytes of
  \<open>unclosed_gltf\<close> are classified as GLTF-JSON although the text they hold opens an
  object that it never closes, so it is not JSON.
\<close>

theorem sniff_gltf_counterexample:
  "sniffFileTypeFromBuffer (bytes_of unclosed_gltf) = known_type ''model/gltf+json'' ''gltf'' \<and>
   \<not> json_object_delimited (utf8_toString (bytes_of unclosed_gltf))"
  using sniff_unclosed_gltf unclosed_gltf_not_delimited by (rule conjI)

lemma of_char_ascii: "unat x < 128 \<Longrightarrow> (of_char (char_of (unat x mod 128)) :: byte) = x"
proof -
  assume h: "unat x < 128"
  have "(of_char (char_of (unat x mod 128)) :: byte) = of_nat (of_char (char_of (unat x mod 128)))"
    by (simp only: of_nat_of_char)
  also have "(of_char (char_of (unat x mod 128)) :: nat) = unat x"
    using h by simp
  finally show ?thesis by simp
qed

lemma seven_bit_take: "seven_bit (take n b) \<Longrightarrow> seven_bit (take m (take n b))"
  unfolding seven_bit_def list_all_iff using set_take_subset [of m "take n b"] by blast

lemma ascii_slice_seven_bit:
  assumes "seven_bit (take (end - start) (drop start b))" and "ascii_slice b start end = s"
  shows "take (end - start) (drop start b) = bytes_of s"
proof -
  let ?w = "take (end - start) (drop start b)"
  have "\<And>x. x \<in> set ?w \<Longrightarrow> (of_char \<circ> (\<lambda>x. char_of (unat x mod 128))) x = x"
  proof -
    fix x
    assume "x \<in> set ?w"
    with assms(1) have "unat x < 128" by (simp add: seven_bit_def list_all_iff)
    then show "(of_char \<circ> (\<lambda>x. char_of (unat x mod 128))) x = x"
      by (simp only: o_apply of_char_ascii)
  qed
  then have "map (of_char \<circ> (\<lambda>x. char_of (unat x mod 128))) ?w = ?w"
    by (rule map_idI)
  then have "map of_char (map (\<lambda>x. char_of (unat x mod 128)) ?w) = ?w"
    by (simp only: map_map)
  with assms(2) show ?thesis by (simp add: ascii_slice_def bytes_of_def)
qed

lemma no_signature_no_type:
  assumes t: "seven_bit (take 6 b)" "seven_bit (take 4 (drop 8 b))"
    and n: "\<not> matches_glb b" "\<not> matches_png b" "\<not> matches_jpg b" "\<not> matches_gif b"
      "\<not> matches_webp b" "\<not> (32 \<le> length b \<and> gltf_heuristic b)"
  shows "sniffFileTypeFromBuffer b = no_type"
proof -
  have t4: "seven_bit (take 4 b)"
    using seven_bit_take [OF t(1), of 4] by simp
  have glb: "ascii_slice b 0 4 \<noteq> ''glTF''"
    using ascii_slice_seven_bit [of 4 0 b "''glTF''"] t4 n(1) by (auto simp: matches_glb_def)
  have gif: "ascii_slice b 0 6 \<noteq> ''GIF87a''" "ascii_slice b 0 6 \<noteq> ''GIF89a''"
    using ascii_slice_seven_bit [of 6 0 b "''GIF87a''"] ascii_slice_seven_bit [of 6 0 b "''GIF89a''"]
      t(1) n(4)
    by (auto simp: matches_gif_def)
  have webp: "\<not> (ascii_slice b 0 4 = ''RIFF'' \<and> ascii_slice b 8 12 = ''WEBP'')"
    using ascii_slice_seven_bit [of 4 0 b "''RIFF''"] ascii_slice_seven_bit [of 12 8 b "''WEBP''"]
      t4 t(2) n(5)
    by (auto simp: matches_webp_def)
  from glb gif webp n(2,3,6) show ?thesis
    by (auto simp: sniffFileTypeFromBuffer_def matches_png_def matches_jpg_def)
qed

text \<open>
  Claim C9 as amended: the sniffer classifies a buffer as GLTF-JSON only when the buffer
  has at least 32 bytes and its first 256 bytes, decoded and with leading white space
  removed, start with an opening brace and contain \<open>"asset"\<close>, a colon and an opening brace
  and \<open>"version"\<close>, a colon and a double quote (a heuristic on the text, which is not
  parsed); for every buffer the result is that for its first 256 bytes; and a buffer
  whose bytes at the offsets 0 to 5 and 8 to 11 are below \<open>0x80\<close> and which matches none
  of the listed signatures yields \<open>{null, null}\<close>. Nothing is said here of a buffer with
  a byte of \<open>0x80\<close> or more at one of these offsets.
\<close>

theorem sniff_reads_head:
  "(sniffFileTypeFromBuffer b = known_type ''model/gltf+json'' ''gltf'' \<longrightarrow>
      32 \<le> length b \<and> gltf_heuristic (take 256 b)) \<and>
   sniffFileTypeFromBuffer (take 256 b) = sniffFileTypeFromBuffer b \<and>
   (seven_bit (take 6 b) \<and> seven_bit (take 4 (drop 8 b)) \<and>
    \<not> matches_glb b \<and> \<not> matches_png b \<and> \<not> matches_jpg b \<and> \<not> matches_gif b \<and>
    \<not> matches_webp b \<and> \<not> (32 \<le> length b \<and> gltf_heuristic b) \<longrightarrow>
      sniffFileTypeFromBuffer b = no_type)"
proof -
  have a: "sniffFileTypeFromBuffer b = known_type ''model/gltf+json'' ''gltf'' \<Longrightarrow>
      32 \<le> length b \<and> gltf_heuristic (take 256 b)"
    unfolding gltf_heuristic_take
    by (simp add: sniffFileTypeFromBuffer_def known_type_eq_iff known_type_neq_no_type [symmetric]
        split: if_splits)
  from a no_signature_no_type [of b] sniff_take_256 [of b] show ?thesis by blast
qed

theorem sniff_reads_head_witness:
  "sniffFileTypeFromBuffer (bytes_of unclosed_gltf) = known_type ''model/gltf+json'' ''gltf'' \<and>
   32 \<le> length (bytes_of unclosed_gltf) \<and>
   gltf_heuristic (take 256 (bytes_of unclosed_gltf)) \<and>
   seven_bit (take 6 [0x67, 0x6c, 0x54, 0x66, 0x32]) \<and>
   seven_bit (take 4 (drop 8 [0x67, 0x6c, 0x54, 0x66, 0x32])) \<and>
   \<not> matches_glb [0x67, 0x6c, 0x54, 0x66, 0x32] \<and> \<not> matches_png [0x67, 0x6c, 0x54, 0x66, 0x32] \<and>
   \<not> matches_jpg [0x67, 0x6c, 0x54, 0x66, 0x32] \<and> \<not> matches_gif [0x67, 0x6c, 0x54, 0x66, 0x32] \<and>
   \<not> matches_webp [0x67, 0x6c, 0x54, 0x66, 0x32] \<and>
   \<not> (32 \<le> length [0x67, 0x6c, 0x54, 0x66, 0x32 :: byte] \<and>
      gltf_heuristic [0x67, 0x6c, 0x54, 0x66, 0x32]) \<and>
   sniffFileTypeFromBuffer [0x67, 0x6c, 0x54, 0x66, 0x32] = no_type"
proof -
  let ?b = "[0x67, 0x6c, 0x54, 0x66, 0x32] :: buffer"
  have g: "sniffFileTypeFromBuffer (bytes_of unclosed_gltf) = known_type ''model/gltf+json'' ''gltf''"
    by (rule sniff_unclosed_gltf)
  have n: "seven_bit (take 6 ?b) \<and> seven_bit (take 4 (drop 8 ?b)) \<and>
   \<not> matches_glb ?b \<and> \<not> matches_png ?b \<and> \<not> matches_jpg ?b \<and> \<not> matches_gif ?b \<and>
   \<not> matches_webp ?b \<and> \<not> (32 \<le> length ?b \<and> gltf_heuristic ?b)"
    by (simp add: seven_bit_def matches_glb_def matches_png_def matches_jpg_def matches_gif_def
        matches_webp_def bytes_of_def png_magic_def jpg_magic_def)
  from sniff_reads_head [of "bytes_of unclosed_gltf"] g
  have "32 \<le> length (bytes_of unclosed_gltf) \<and> gltf_heuristic (take 256 (bytes_of unclosed_gltf))"
    by blast
  moreover from sniff_reads_head [of ?b] n
  have "sniffFileTypeFromBuffer ?b = no_type"
    by blast
  ultimately show ?thesis using g n by blast
qed
section \<open>The progress tracker after completion\<close>

lemma decode_loop_numeral:
  "decode_loop clock nd progressKey depthBlocks (numeral n) st =
     (if w_endOfData st then Inr st
      else if w_txid st \<in> w_processed st then
        (case findNextOrdinalTx nd (w_txid st) (w_voutIndex st) depthBlocks of
           Some (t, v, h) \<Rightarrow>
             decode_loop clock nd progressKey depthBlocks (pred_numeral n) (st\<lparr>w_txid := t, w_voutIndex := v\<rparr>)
         | None \<Rightarrow> Inr st)
      else
        (case getrawtransaction nd (w_txid st) of
           Inl e \<Rightarrow> Inl (e, w_tracker st)
         | Inr rawTx \<Rightarrow>
             (case process_vins clock progressKey (r_vin rawTx)
                     (st\<lparr>w_processed := insert (w_txid st) (w_processed st)\<rparr>) of
                Inl e \<Rightarrow> Inl e
              | Inr st' \<Rightarrow>
                  if w_endOfData st' then Inr st'
                  else
                    (case findNextOrdinalTx nd (w_txid st') (w_voutIndex st') depthBlocks of
                       Some (t, v, h) \<Rightarrow>
                         decode_loop clock nd progressKey depthBlocks (pred_numeral n)
                           (st'\<lparr>w_txid := t, w_voutIndex := v\<rparr>)
                     | None \<Rightarrow> Inr st'))))"
  using decode_loop.simps(2) [of clock nd progressKey depthBlocks "pred_numeral n" st]
  by (simp only: numeral_eq_Suc [symmetric])

lemma tok_aa: "asm_tokens ''6582895 1 746578742f68746d6c 0 3c696d67207372633d2f636f6e74656e742f62623e'' =
   [''6582895'', ''1'', ''746578742f68746d6c'', ''0'', ''3c696d67207372633d2f636f6e74656e742f62623e'']"
  by (simp add: asm_tokens_def ws_len_def)

lemma tok_bb: "asm_tokens ''6582895 1 696d6167652f706e67 0 89504e470d0a1a0a'' =
   [''6582895'', ''1'', ''696d6167652f706e67'', ''0'', ''89504e470d0a1a0a'']"
  by (simp add: asm_tokens_def ws_len_def)


lemma gen_aa: "processGenesisAsm [''6582895'', ''1'', ''746578742f68746d6c'', ''0'', ''3c696d67207372633d2f636f6e74656e742f62623e''] =
   Inr \<lparr> dataHex = ''3c696d67207372633d2f636f6e74656e742f62623e'', endOfData = True, chunksFound = 1,
           lastNumChunks = IntV 0, mimeType = ''text/html'' \<rparr>"
  by (simp add: processGenesisAsm_def asm_loop_pairs token_eval)

lemma gen_bb: "processGenesisAsm [''6582895'', ''1'', ''696d6167652f706e67'', ''0'', ''89504e470d0a1a0a''] =
   Inr \<lparr> dataHex = ''89504e470d0a1a0a'', endOfData = True, chunksFound = 1,
           lastNumChunks = IntV 0, mimeType = ''image/png'' \<rparr>"
  by (simp add: processGenesisAsm_def asm_loop_pairs token_eval)

lemmas tracker_eval = updateProgress_def get_or_base_def baseProgressObject_def stamp_and_set_def
  initProgress_def resetProgressForId_def getProgress_def completeProgress_def setDependencyPlan_def
  incrementDependencyDone_def empty_tracker_def tracker_after_def

lemmas walk_eval = decodeDoginalsChain_def decode_loop_numeral process_vin_def getrawtransaction_def
  example_node_def tok_aa tok_bb gen_aa gen_bb

lemmas tracker_runs = tracker_parent_def tracker_planned_def tracker_child_def tracker_done_def

lemma tracker_parent_entry:
  "map_option observed (progressMap tracker_parent ''aa'') = Some (False, 1, None, 0)"
  by (simp add: tracker_runs walk_eval tracker_eval Let_def observed_def)

lemma tracker_planned_entry:
  "map_option observed (progressMap tracker_planned ''aa'') = Some (False, 1, Some 1, 0)"
  by (simp add: tracker_runs walk_eval tracker_eval Let_def observed_def)

lemma child_decode_stats:
  "map_option observed (stats_of (decodeDoginalsChain example_clock example_node ''bb'' 5000 ''aa'' 20000
      tracker_planned)) = Some (True, 2, Some 1, 0)"
  by (simp add: tracker_runs walk_eval tracker_eval Let_def stats_of_def observed_def)

lemma tracker_child_entry:
  "map_option observed (progressMap tracker_child ''aa'') = Some (False, 2, Some 1, 0)"
  by (simp add: tracker_runs walk_eval tracker_eval Let_def observed_def)

lemma tracker_done_entry:
  "map_option observed (progressMap tracker_done ''aa'') = Some (False, 2, Some 1, 1)"
  by (simp add: tracker_runs walk_eval tracker_eval Let_def observed_def)

text \<open>
  Claim C8 as stated: once \<open>completeProgress\<close> has set \<open>active = false\<close>, no later call of
  the tracker changes the entry, for any call sequence of a decode with dependencies.
  On the code this fails. On the example node, \<open>reconstruct("aa")\<close> completes the entry
  of \<open>aa\<close> (\<open>active = false\<close>, one chunk, no dependency plan); then \<open>setDependencyPlan\<close> gives
  it a \<open>depTotal\<close>, the decode of the dependency adds a chunk to it and reports it with
  \<open>active = true\<close>, and \<open>incrementDependencyDone\<close> raises its \<open>depDone\<close>.
\<close>

theorem tracker_mutated_after_complete_counterexample:
  "map_option observed (progressMap tracker_parent ''aa'') = Some (False, 1, None, 0) \<and>
   map_option observed (progressMap tracker_planned ''aa'') = Some (False, 1, Some 1, 0) \<and>
   map_option observed (stats_of (decodeDoginalsChain example_clock example_node ''bb'' 5000 ''aa'' 20000
      tracker_planned)) = Some (True, 2, Some 1, 0) \<and>
   map_option observed (progressMap tracker_child ''aa'') = Some (False, 2, Some 1, 0) \<and>
   map_option observed (progressMap tracker_done ''aa'') = Some (False, 2, Some 1, 1)"
  using tracker_parent_entry tracker_planned_entry child_decode_stats tracker_child_entry
    tracker_done_entry
  by simp

text \<open>
  Claim C8 as amended: \<open>completeProgress\<close> sets the entry's \<open>active\<close> to false and its
  \<open>updatedAt\<close> to the clock reading and leaves the rest as it is; the entry is not
  guarded afterwards, and the later calls of a decode with dependencies change it as
  they change an active entry: \<open>updateProgress\<close> adds the chunks found, raises
  \<open>estimatedTotal\<close> when a number is reported that gives more (or when it was unset or
  0), sets the label and sets \<open>active\<close> back to true, \<open>setDependencyPlan\<close> sets \<open>depTotal\<close>
  and resets \<open>depDone\<close>, and \<open>incrementDependencyDone\<close> adds one to \<open>depDone\<close>, each
  setting \<open>updatedAt\<close> to the next clock reading.
\<close>

theorem tracker_after_complete:
  assumes "progressMap tr key = Some p" and "key \<noteq> []" and "0 < totalDeps"
  shows "progressMap (completeProgress clock key tr) key =
           Some (p\<lparr>p_active := False, p_updatedAt := clock (clock_reads tr)\<rparr>) \<and>
         progressMap (updateProgress clock key label found reported (completeProgress clock key tr)) key =
           Some (p\<lparr>p_chunksFound := p_chunksFound p + found,
                   p_estimatedTotal :=
                     (case reported of
                        IntV n \<Rightarrow>
                          (case p_estimatedTotal p of
                             None \<Rightarrow> Some (int (p_chunksFound p + found) + n)
                           | Some e \<Rightarrow>
                               if e = 0 \<or> e < int (p_chunksFound p + found) + n
                               then Some (int (p_chunksFound p + found) + n) else Some e)
                      | NaNV \<Rightarrow> p_estimatedTotal p
                      | NullV \<Rightarrow> p_estimatedTotal p),
                   p_label := label, p_active := True,
                   p_updatedAt := clock (clock_reads tr + 1)\<rparr>) \<and>
         progressMap (setDependencyPlan clock key totalDeps (completeProgress clock key tr)) key =
           Some (p\<lparr>p_active := False, p_updatedAt := clock (clock_reads tr + 1),
                   p_depTotal := Some totalDeps, p_depDone := 0\<rparr>) \<and>
         progressMap (incrementDependencyDone clock key (completeProgress clock key tr)) key =
           Some (p\<lparr>p_active := False, p_updatedAt := clock (clock_reads tr + 1),
                   p_depDone := p_depDone p + 1\<rparr>)"
proof -
  let ?c = "completeProgress clock key tr"
  have c: "progressMap ?c key = Some (p\<lparr>p_active := False, p_updatedAt := clock (clock_reads tr)\<rparr>)"
    and r: "clock_reads ?c = clock_reads tr + 1"
    using assms(1) by (simp_all add: completeProgress_def stamp_and_set_def)
  have u: "progressMap (updateProgress clock key label found reported ?c) key =
           Some (p\<lparr>p_chunksFound := p_chunksFound p + found,
                   p_estimatedTotal :=
                     (case reported of
                        IntV n \<Rightarrow>
                          (case p_estimatedTotal p of
                             None \<Rightarrow> Some (int (p_chunksFound p + found) + n)
                           | Some e \<Rightarrow>
                               if e = 0 \<or> e < int (p_chunksFound p + found) + n
                               then Some (int (p_chunksFound p + found) + n) else Some e)
                      | NaNV \<Rightarrow> p_estimatedTotal p
                      | NullV \<Rightarrow> p_estimatedTotal p),
                   p_label := label, p_active := True,
                   p_updatedAt := clock (clock_reads tr + 1)\<rparr>)"
    using c r
    by (cases reported; cases "p_estimatedTotal p"; cases "found = 0")
      (simp_all add: updateProgress_def get_or_base_def stamp_and_set_def Let_def)
  have s: "progressMap (setDependencyPlan clock key totalDeps ?c) key =
           Some (p\<lparr>p_active := False, p_updatedAt := clock (clock_reads tr + 1),
                   p_depTotal := Some totalDeps, p_depDone := 0\<rparr>)"
    using c r assms(2,3) by (simp add: setDependencyPlan_def get_or_base_def stamp_and_set_def)
  have i: "progressMap (incrementDependencyDone clock key ?c) key =
           Some (p\<lparr>p_active := False, p_updatedAt := clock (clock_reads tr + 1),
                   p_depDone := p_depDone p + 1\<rparr>)"
    using c r assms(2) by (simp add: incrementDependencyDone_def stamp_and_set_def)
  from c u s i show ?thesis by (simp only: simp_thms)
qed

theorem tracker_after_complete_witness:
  "progressMap (initProgress example_clock ''aa'' empty_tracker) ''aa'' =
     Some \<lparr> p_txid = ''aa'', p_chunksFound = 0, p_estimatedTotal = None, p_active = True,
            p_label = ''init'', p_startedAt = example_clock 0, p_updatedAt = example_clock 1,
            p_depTotal = None, p_depDone = 0 \<rparr> \<and>
   ''aa'' \<noteq> [] \<and> (0::nat) < 2 \<and>
   progressMap (completeProgress example_clock ''aa'' (initProgress example_clock ''aa'' empty_tracker)) ''aa'' =
     Some \<lparr> p_txid = ''aa'', p_chunksFound = 0, p_estimatedTotal = None, p_active = False,
            p_label = ''init'', p_startedAt = example_clock 0, p_updatedAt = example_clock 2,
            p_depTotal = None, p_depDone = 0 \<rparr> \<and>
   progressMap (updateProgress example_clock ''aa'' ''chain'' 3 (IntV 4)
      (completeProgress example_clock ''aa'' (initProgress example_clock ''aa'' empty_tracker))) ''aa'' =
     Some \<lparr> p_txid = ''aa'', p_chunksFound = 3, p_estimatedTotal = Some 7, p_active = True,
            p_label = ''chain'', p_startedAt = example_clock 0, p_updatedAt = example_clock 3,
            p_depTotal = None, p_depDone = 0 \<rparr> \<and>
   progressMap (setDependencyPlan example_clock ''aa'' 2
      (completeProgress example_clock ''aa'' (initProgress example_clock ''aa'' empty_tracker))) ''aa'' =
     Some \<lparr> p_txid = ''aa'', p_chunksFound = 0, p_estimatedTotal = None, p_active = False,
            p_label = ''init'', p_startedAt = example_clock 0, p_updatedAt = example_clock 3,
            p_depTotal = Some 2, p_depDone = 0 \<rparr> \<and>
   progressMap (incrementDependencyDone example_clock ''aa''
      (completeProgress example_clock ''aa'' (initProgress example_clock ''aa'' empty_tracker))) ''aa'' =
     Some \<lparr> p_txid = ''aa'', p_chunksFound = 0, p_estimatedTotal = None, p_active = False,
            p_label = ''init'', p_startedAt = example_clock 0, p_updatedAt = example_clock 3,
            p_depTotal = None, p_depDone = 1 \<rparr>"
proof -
  have h: "progressMap (initProgress example_clock ''aa'' empty_tracker) ''aa'' =
     Some \<lparr> p_txid = ''aa'', p_chunksFound = 0, p_estimatedTotal = None, p_active = True,
            p_label = ''init'', p_startedAt = example_clock 0, p_updatedAt = example_clock 1,
            p_depTotal = None, p_depDone = 0 \<rparr>"
    by (simp add: initProgress_def baseProgressObject_def empty_tracker_def)
  have k: "''aa'' \<noteq> []" and t: "(0::nat) < 2" by simp_all
  have r: "clock_reads (initProgress example_clock ''aa'' empty_tracker) = 2"
    by (simp add: initProgress_def baseProgressObject_def empty_tracker_def)
  note main = tracker_after_complete [OF h k t, of example_clock "''chain''" 3 "IntV 4"]
  from main h r show ?thesis by simp
qed
section \<open>The pending journal holds the failed transaction and those after it\<close>

lemma broadcast_from_fails_at:
  "i < length ts \<Longrightarrow>
   sent_through replies retry (take i ts) (posts st) = Some n \<Longrightarrow>
   broadcast replies retry n = Some (Some e, n') \<Longrightarrow>
   \<not> already_sent e \<Longrightarrow>
   broadcast_from replies retry ts st = Some (Exited 1, st\<lparr>posts := n', pending := Some (drop i ts)\<rparr>)"
proof (induction ts arbitrary: i st)
  case Nil
  then show ?case by simp
next
  case (Cons t ts)
  show ?case
  proof (cases i)
    case 0
    with Cons.prems show ?thesis by simp
  next
    case (Suc k)
    with Cons.prems have k: "k < length ts" by simp
    from Cons.prems Suc obtain r m where
      b: "broadcast replies retry (posts st) = Some (r, m)"
      and ok: "r = None \<or> (\<exists>e'. r = Some e' \<and> already_sent e')"
      and rest: "sent_through replies retry (take k ts) m = Some n"
      by (auto split: option.splits if_splits)
    have "broadcast_from replies retry ts (st\<lparr>posts := m\<rparr>) =
            Some (Exited 1, st\<lparr>posts := m\<rparr>\<lparr>posts := n', pending := Some (drop k ts)\<rparr>)"
      using Cons.IH [OF k _ Cons.prems(3) Cons.prems(4), of "st\<lparr>posts := m\<rparr>"] rest by simp
    then show ?thesis using b ok Suc by auto
  qed
qed

text \<open>
  Claim C4. When the broadcasts of the transactions before index \<open>i\<close> each end (accepted,
  or taken as already sent) and the broadcast of transaction \<open>i\<close> throws an error whose
  message contains neither \<open>bad-txns-inputs-spent\<close> nor \<open>already in block chain\<close>, then
  \<open>broadcastAll\<close> writes the journal with exactly the transactions from index \<open>i\<close> on, in
  their order, and exits the process with code 1.
\<close>

theorem broadcastAll_journals_rest:
  assumes "i < length txs"
    and "sent_through replies retry (take i txs) (posts st) = Some n"
    and "broadcast replies retry n = Some (Some e, n')"
    and "\<not> str_includes (error_msg e) ''bad-txns-inputs-spent''"
    and "\<not> str_includes (error_msg e) ''already in block chain''"
  shows "broadcastAll replies retry txs st =
           Some (Exited 1, st\<lparr>posts := n', pending := Some (drop i txs)\<rparr>)"
proof -
  from assms(4,5) have "\<not> already_sent e" by (simp add: already_sent_def)
  from broadcast_from_fails_at [OF assms(1,2,3) this] show ?thesis
    by (simp add: broadcastAll_def)
qed

lemma broadcast_once:
  "broadcast replies False n =
     Some (case replies n of Accepted \<Rightarrow> None | Rejected e \<Rightarrow> Some e, n + 1)"
  by (subst broadcast.simps) (simp split: reply.splits)

theorem broadcastAll_journals_rest_witness:
  "(1::nat) < length [tx_a, tx_b, tx_c] \<and>
   sent_through second_rejected False (take 1 [tx_a, tx_b, tx_c]) (posts \<lparr>posts = 0, pending = None\<rparr>) = Some 1 \<and>
   broadcast second_rejected False 1 = Some (Some fee_error, 2) \<and>
   \<not> str_includes (error_msg fee_error) ''bad-txns-inputs-spent'' \<and>
   \<not> str_includes (error_msg fee_error) ''already in block chain'' \<and>
   broadcastAll second_rejected False [tx_a, tx_b, tx_c] \<lparr>posts = 0, pending = None\<rparr> =
     Some (Exited 1, \<lparr>posts = 2, pending = Some [tx_b, tx_c]\<rparr>)"
proof -
  have h1: "(1::nat) < length [tx_a, tx_b, tx_c]" by simp
  have h2: "sent_through second_rejected False (take 1 [tx_a, tx_b, tx_c])
              (posts \<lparr>posts = 0, pending = None\<rparr>) = Some 1"
    by (simp add: broadcast_once second_rejected_def)
  have h3: "broadcast second_rejected False 1 = Some (Some fee_error, 2)"
    by (simp add: broadcast_once second_rejected_def)
  have h4: "\<not> str_includes (error_msg fee_error) ''bad-txns-inputs-spent''"
    by (simp add: error_msg_def fee_error_def startsWith_def)
  have h5: "\<not> str_includes (error_msg fee_error) ''already in block chain''"
    by (simp add: error_msg_def fee_error_def startsWith_def)
  from broadcastAll_journals_rest [OF h1 h2 h3 h4 h5] h1 h2 h3 h4 h5 show ?thesis by simp
qed

section \<open>The bulk mint controller after a chain limit\<close>

lemma push_new_nonempty: "acc \<noteq> [] \<Longrightarrow> push_new acc ts \<noteq> []"
  by (induction ts arbitrary: acc) auto

lemma job_ok_count_wave: "job_ok j \<Longrightarrow> job_ok (count_wave w j)"
  by (simp add: job_ok_def count_wave_def)

lemma last_count_wave: "lastSuccessfulTxid (count_wave w j) = known_after w (lastSuccessfulTxid j)"
  by (simp add: count_wave_def known_after_def)

lemma watch_known_ok: "job_ok j \<Longrightarrow> watch_known j = lastSuccessfulTxid j"
  by (auto simp: job_ok_def watch_known_def split: option.splits)

lemma sync_then_order:
  assumes "\<And>j'. job_ok j' \<Longrightarrow> lastSuccessfulTxid j' = lastSuccessfulTxid j \<Longrightarrow>
             keeps_order False (lastSuccessfulTxid j) Normal (rest j')"
    and "job_ok j"
  shows "keeps_order False (lastSuccessfulTxid j) AfterWait (sync_then env j rest)"
    and "keeps_order False (lastSuccessfulTxid j) Normal (sync_then env j rest)"
  using assms by (simp_all add: sync_then_def known_step_def job_ok_def)

lemma wait_for_cases: "wait_for w = Sleep30 \<or> (\<exists>t. wait_for w = WaitConfirm t)"
  by (cases w) (simp_all add: wait_for_def)

lemma test_wave_part_order:
  assumes again: "\<And>j'. job_ok j' \<Longrightarrow> keeps_order False (lastSuccessfulTxid j') Normal (again j')"
    and ok: "job_ok j"
  shows "keeps_order False (lastSuccessfulTxid j) AfterSync (test_wave_part env total_mints j again)"
proof -
  let ?w = "wave_at env (waves_run j)"
  let ?j2 = "count_wave ?w (j\<lparr>waves_run := waves_run j + 1, flag_tests := flag_tests j + 1\<rparr>)"
  have "job_ok (j\<lparr>waves_run := waves_run j + 1, flag_tests := flag_tests j + 1\<rparr>)"
    using ok by (simp add: job_ok_def)
  then have ok2: "job_ok ?j2" by (rule job_ok_count_wave)
  have k2: "lastSuccessfulTxid ?j2 = known_after ?w (lastSuccessfulTxid j)"
    by (simp add: last_count_wave)
  have s: "keeps_order False (lastSuccessfulTxid ?j2) AfterWait (sync_then env ?j2 again)"
  proof (rule sync_then_order(1))
    fix j'
    assume a: "job_ok j'" "lastSuccessfulTxid j' = lastSuccessfulTxid ?j2"
    show "keeps_order False (lastSuccessfulTxid ?j2) Normal (again j')"
      using again [OF a(1)] a(2) by simp
  next
    show "job_ok ?j2" by (rule ok2)
  qed
  show ?thesis
  proof (cases "cancelled_at env (flag_tests j)")
    case True
    then show ?thesis by (simp add: test_wave_part_def Let_def known_step_def)
  next
    case nc: False
    show ?thesis
    proof (cases "chainLimit ?w")
      case True
      have "wait_for (watch_known ?j2) = (case lastSuccessfulTxid ?j2 of Some t \<Rightarrow> WaitConfirm t | None \<Rightarrow> Sleep30)"
        unfolding watch_known_ok [OF ok2] by (simp add: wait_for_def)
      then show ?thesis using nc True s k2
        by (simp add: test_wave_part_def Let_def known_step_def split: option.splits)
    next
      case nl: False
      show ?thesis
      proof (cases "exitCode ?w = 0")
        case True
        then show ?thesis using nc nl s k2 wait_for_cases [of "watch_after ?w ?j2"]
          by (auto simp: test_wave_part_def Let_def known_step_def)
      next
        case False
        then show ?thesis using nc nl
          by (simp add: test_wave_part_def Let_def known_step_def)
      qed
    qed
  qed
qed

lemma chain_limit_part_order:
  assumes again: "\<And>j'. job_ok j' \<Longrightarrow> keeps_order False (lastSuccessfulTxid j') Normal (again j')"
    and ok: "job_ok j"
  shows "keeps_order False (lastSuccessfulTxid j) AfterLimit (chain_limit_part env total_mints j again)"
proof -
  have t: "keeps_order False (lastSuccessfulTxid j) AfterSync
             (test_wave_part env total_mints (j\<lparr>syncs_run := syncs_run j + 1\<rparr>) again)"
    using test_wave_part_order [OF again, of "j\<lparr>syncs_run := syncs_run j + 1\<rparr>" env total_mints] ok
    by (simp add: job_ok_def)
  show ?thesis using t
    by (simp add: chain_limit_part_def sync_then_def known_step_def)
qed

lemma wave_part_order:
  assumes again: "\<And>j'. job_ok j' \<Longrightarrow> keeps_order False (lastSuccessfulTxid j') Normal (again j')"
    and ok: "job_ok j"
  shows "keeps_order False (lastSuccessfulTxid j) Normal (wave_part env total_mints j again)"
proof -
  let ?w = "wave_at env (waves_run j)"
  let ?j2 = "count_wave ?w (j\<lparr>waves_run := waves_run j + 1, flag_tests := flag_tests j + 1\<rparr>)"
  have "job_ok (j\<lparr>waves_run := waves_run j + 1, flag_tests := flag_tests j + 1\<rparr>)"
    using ok by (simp add: job_ok_def)
  then have ok2: "job_ok ?j2" by (rule job_ok_count_wave)
  have k2: "lastSuccessfulTxid ?j2 = known_after ?w (lastSuccessfulTxid j)"
    by (simp add: last_count_wave)
  have s: "keeps_order False (lastSuccessfulTxid ?j2) Normal (sync_then env ?j2 again)"
  proof (rule sync_then_order(2))
    fix j'
    assume a: "job_ok j'" "lastSuccessfulTxid j' = lastSuccessfulTxid ?j2"
    show "keeps_order False (lastSuccessfulTxid ?j2) Normal (again j')"
      using again [OF a(1)] a(2) by simp
  next
    show "job_ok ?j2" by (rule ok2)
  qed
  have c: "keeps_order False (lastSuccessfulTxid ?j2) AfterLimit (chain_limit_part env total_mints ?j2 again)"
    by (rule chain_limit_part_order [OF again ok2])
  show ?thesis
  proof (cases "cancelled_at env (flag_tests j)")
    case True
    then show ?thesis by (simp add: wave_part_def Let_def known_step_def)
  next
    case nc: False
    show ?thesis
    proof (cases "chainLimit ?w")
      case True
      then show ?thesis using nc c k2
        by (simp add: wave_part_def Let_def known_step_def)
    next
      case nl: False
      show ?thesis
      proof (cases "exitCode ?w = 0")
        case True
        then show ?thesis using nc nl s k2 wait_for_cases [of "watch_after ?w ?j2"]
          by (auto simp: wave_part_def Let_def known_step_def)
      next
        case False
        then show ?thesis using nc nl
          by (simp add: wave_part_def Let_def known_step_def)
      qed
    qed
  qed
qed

lemma mint_loop_order:
  "job_ok j \<Longrightarrow> keeps_order False (lastSuccessfulTxid j) Normal (mint_loop fuel env total_mints j)"
proof (induction fuel arbitrary: j)
  case 0
  then show ?case by simp
next
  case (Suc fuel)
  have "keeps_order False (lastSuccessfulTxid (j\<lparr>flag_tests := flag_tests j + 1\<rparr>)) Normal
          (wave_part env total_mints (j\<lparr>flag_tests := flag_tests j + 1\<rparr>) (mint_loop fuel env total_mints))"
    by (rule wave_part_order) (use Suc in \<open>simp_all add: job_ok_def\<close>)
  then show ?case by (simp add: known_step_def)
qed

lemma always_limit_run:
  "mint_loop 1 always_limit 5 new_job =
     [Wave 5 limit_result, DeletePending, Sync True, TestWave 5 limit_result, Sleep30, Sync True]"
  by (simp add: always_limit_def new_job_def wave_part_def chain_limit_part_def test_wave_part_def
      sync_then_def count_wave_def limit_result_def watch_known_def wait_for_def MAX_PER_WAVE_def
      Let_def)

lemma always_limit_run_breaks_stated_order:
  "\<not> keeps_order True None Normal
     [Wave 5 limit_result, DeletePending, Sync True, TestWave 5 limit_result, Sleep30, Sync True]"
  by (simp add: known_step_def known_after_def limit_result_def)

text \<open>
  Claim C5 as stated: after a test wave that shows the chain limit too, the controller
  waits for a known transaction to confirm before it syncs and resumes. On the code this
  fails for a job that has minted nothing yet: when the first wave and the test wave of
  a job of 5 both show the chain limit, the controller sleeps 30 seconds, syncs and goes
  on to the next wave.
\<close>

theorem mint_loop_wait_counterexample:
  "mint_loop 1 always_limit 5 new_job =
     [Wave 5 limit_result, DeletePending, Sync True, TestWave 5 limit_result, Sleep30, Sync True] \<and>
   \<not> keeps_order True None Normal (mint_loop 1 always_limit 5 new_job)"
  using always_limit_run always_limit_run_breaks_stated_order by simp

text \<open>
  Claim C5 as amended: whenever a wave shows the chain limit, the controller starts no
  other normal wave before it has, in this order, deleted the pending journal, synced
  the wallet and run exactly one test wave; when the test wave shows the chain limit too
  it waits for the last transaction the job has minted to confirm or leave the mempool,
  or sleeps 30 seconds when the job has minted none, and syncs before it resumes; a test
  wave that fails otherwise ends the job with an error. This holds of every job, in all
  surroundings and for any number of turns of the loop.
\<close>

theorem mint_loop_keeps_order:
  "keeps_order False None Normal (mint_loop fuel env total_mints new_job)"
proof -
  have "job_ok new_job" by (simp add: job_ok_def new_job_def)
  from mint_loop_order [OF this, of fuel env total_mints] show ?thesis
    by (simp add: new_job_def)
qed

section \<open>Asm tokens and hex strings\<close>

lemma ws_len_plain: "plain c \<Longrightarrow> ws_len (c # s) = 0"
  by (auto simp: plain_def ws_len_def split: list.splits)

lemma ws_len_space: "ws_len (CHR '' '' # s) = 1"
  by (simp add: ws_len_def)

lemma asm_runs_nil: "asm_runs k cur [] = (if cur = [] then [] else [cur])"
  by (cases k) simp_all

lemma asm_runs_plain:
  "list_all plain t \<Longrightarrow> length t \<le> fuel \<Longrightarrow>
   asm_runs fuel cur (t @ rest) = asm_runs (fuel - length t) (cur @ t) rest"
proof (induction t arbitrary: fuel cur)
  case Nil
  then show ?case by simp
next
  case (Cons c t)
  then obtain k where k: "fuel = Suc k" by (cases fuel) auto
  from Cons.prems have "plain c" "list_all plain t" "length t \<le> k" using k by simp_all
  then show ?case using Cons.IH [of k "cur @ [c]"] k by (simp add: ws_len_plain)
qed

lemma asm_runs_space:
  "cur \<noteq> [] \<Longrightarrow> asm_runs (Suc k) cur (CHR '' '' # s) = cur # asm_runs k [] s"
  by (simp add: ws_len_space)

lemma asm_runs_join:
  "toks \<noteq> [] \<Longrightarrow> list_all token_ok toks \<Longrightarrow> length (join_spaces toks) \<le> fuel \<Longrightarrow>
   asm_runs fuel [] (join_spaces toks) = toks"
proof (induction toks arbitrary: fuel rule: join_spaces.induct)
  case 1
  then show ?case by simp
next
  case (2 t)
  then have "asm_runs fuel [] (t @ []) = asm_runs (fuel - length t) ([] @ t) []"
    by (intro asm_runs_plain) (simp_all add: token_ok_def)
  then show ?case using 2 by (simp add: asm_runs_nil token_ok_def)
next
  case (3 t t' ts)
  let ?J = "join_spaces (t' # ts)"
  from 3 have t: "list_all plain t" "t \<noteq> []" by (simp_all add: token_ok_def)
  from 3 have len: "length t + 1 + length ?J \<le> fuel" by simp
  have "asm_runs fuel [] (t @ (CHR '' '' # ?J)) = asm_runs (fuel - length t) ([] @ t) (CHR '' '' # ?J)"
    using t len by (intro asm_runs_plain) simp_all
  also obtain k where k: "fuel - length t = Suc k" using len by (cases "fuel - length t") auto
  then have "asm_runs (fuel - length t) ([] @ t) (CHR '' '' # ?J) = t # asm_runs k [] ?J"
    using t by (simp add: asm_runs_space del: asm_runs.simps)
  also have "asm_runs k [] ?J = t' # ts"
    using 3 len k by (intro "3.IH") simp_all
  finally show ?case by simp
qed

lemma asm_tokens_join:
  "toks \<noteq> [] \<Longrightarrow> list_all token_ok toks \<Longrightarrow> asm_tokens (join_spaces toks) = toks"
  by (simp add: asm_tokens_def asm_runs_join)

lemma join_spaces_nonempty: "toks \<noteq> [] \<Longrightarrow> list_all token_ok toks \<Longrightarrow> join_spaces toks \<noteq> []"
  by (induction toks rule: join_spaces.induct) (auto simp: token_ok_def)

lemma hexval_hex_digit: "d < 16 \<Longrightarrow> hexval (hex_digit d) = Some d"
  by (auto simp: hexval_def hex_digit_def Let_def of_char_of)

lemma byte_div_mod: "(of_nat (16 * (unat (x::byte) div 16) + unat x mod 16) :: byte) = x"
  by simp

lemma unat_byte_div16: "unat (x::byte) div 16 < 16"
proof -
  have "unat x < 2 ^ LENGTH(8)" by (rule unsigned_less)
  then show ?thesis by simp
qed

lemma hex_decode_byte: "hex_decode (hex_byte x @ s) = x # hex_decode s"
  using unat_byte_div16 [of x]
  by (simp add: hex_byte_def hexval_hex_digit)

lemma hex_decode_encode_append: "hex_decode (hex_encode b @ s) = b @ hex_decode s"
  by (induction b) (simp_all add: hex_encode_def hex_decode_byte)

lemma hex_decode_encode: "hex_decode (hex_encode b) = b"
  using hex_decode_encode_append [of b "[]"] by simp

lemma length_hex_encode: "length (hex_encode b) = 2 * length b"
  by (induction b) (simp_all add: hex_encode_def hex_byte_def)

lemma hex_encode_append: "hex_encode (a @ b) = hex_encode a @ hex_encode b"
  by (simp add: hex_encode_def)

lemma hex_encode_concat: "concat (map hex_encode ps) = hex_encode (concat ps)"
  by (induction ps) (simp_all add: hex_encode_def)

lemma plain_hex_digit: "d < 16 \<Longrightarrow> plain (hex_digit d)"
  by (auto simp: plain_def hex_digit_def of_char_of)

lemma plain_hex_encode: "list_all plain (hex_encode b)"
proof (induction b)
  case Nil
  then show ?case by (simp add: hex_encode_def)
next
  case (Cons x b)
  have "unat x mod 16 < 16" by simp
  then show ?case using Cons unat_byte_div16 [of x]
    by (simp add: hex_encode_def hex_byte_def plain_hex_digit)
qed

lemma of_char_digit_char: "d < 10 \<Longrightarrow> (of_char (digit_char d) :: nat) = 48 + d"
  by (simp add: digit_char_def of_char_of)

lemma is_digit_digit_char: "d < 10 \<Longrightarrow> is_digit (digit_char d)"
  by (simp add: is_digit_def of_char_digit_char)

lemma plain_digit_char: "d < 10 \<Longrightarrow> plain (digit_char d)"
  by (simp add: plain_def of_char_digit_char)

lemma digits_value_snoc: "digits_value (ds @ [c]) = 10 * digits_value ds + (of_char c - 48)"
  by (simp add: digits_value_def)

lemma show_nat_props:
  "show_nat n \<noteq> [] \<and> list_all is_digit (show_nat n) \<and> list_all plain (show_nat n) \<and>
   digits_value (show_nat n) = n"
proof (induction n rule: show_nat.induct)
  case (1 n)
  show ?case
  proof (cases "n < 10")
    case True
    then show ?thesis
      by (subst (1 2 3 4) show_nat.simps)
         (simp add: is_digit_digit_char plain_digit_char digits_value_def of_char_digit_char)
  next
    case False
    have m: "n mod 10 < 10" by simp
    from False "1.IH" have ih: "show_nat (n div 10) \<noteq> []" "list_all is_digit (show_nat (n div 10))"
      "list_all plain (show_nat (n div 10))" "digits_value (show_nat (n div 10)) = n div 10"
      by simp_all
    show ?thesis using False ih m
      by (subst (1 2 3 4) show_nat.simps)
         (simp add: is_digit_digit_char plain_digit_char digits_value_snoc of_char_digit_char)
  qed
qed

lemma is_digit_not_minus: "is_digit c \<Longrightarrow> c \<noteq> CHR ''-'' \<and> c \<noteq> CHR ''+''"
  by (auto simp: is_digit_def)

lemma ws_len_digit: "is_digit c \<Longrightarrow> ws_len (c # s) = 0"
  by (auto simp: is_digit_def ws_len_def split: list.splits)

lemma trimStart_digit: "is_digit c \<Longrightarrow> trimStart (c # s) = c # s"
  by (simp add: trimStart_def ws_len_digit)

lemma digits_string:
  assumes "ds \<noteq> []" "list_all is_digit ds"
  shows "isIntegerString ds" and "strip_minus ds = ds"
    and "parseInt10 ds = IntV (int (digits_value ds))"
proof -
  from assms obtain c cs where ds: "ds = c # cs" and c: "is_digit c" by (cases ds) auto
  show s: "strip_minus ds = ds" using ds is_digit_not_minus [OF c] by (simp add: strip_minus_def)
  show "isIntegerString ds" using assms s by (simp add: isIntegerString_def)
  have tw: "takeWhile is_digit ds = ds" using assms(2) by (simp add: takeWhile_eq_all_conv list_all_iff)
  show "parseInt10 ds = IntV (int (digits_value ds))"
    using is_digit_not_minus [OF c] tw assms(1)
    by (simp add: parseInt10_def ds trimStart_digit [OF c] startsWith_def Let_def)
qed

lemma show_nat_token:
  "isIntegerString (show_nat n)" "parseInt10 (strip_minus (show_nat n)) = IntV (int n)"
  "token_ok (show_nat n)"
  using show_nat_props [of n] digits_string [of "show_nat n"] by (simp_all add: token_ok_def)

lemma show_int_nat: "show_int (int n) = show_nat n"
  by (simp add: show_int_def)

lemma asm_chunk_numberToChunk:
  assumes "n < 32768"
  shows "asm_chunk (numberToChunk n) = show_nat n"
proof -
  consider "n = 0" | "1 \<le> n \<and> n \<le> 16" | "17 \<le> n \<and> n < 128" | "128 \<le> n" by linarith
  then show ?thesis
  proof cases
    case 1
    then show ?thesis
      by (simp add: asm_chunk_def numberToChunk_def OP_PUSHDATA4_def asm_data_def scriptnum_def
          show_int_def)
  next
    case 2
    then show ?thesis
      by (simp add: asm_chunk_def numberToChunk_def OP_PUSHDATA4_def op_name_def)
  next
    case 3
    then have "scriptnum [of_nat n :: byte] = int n"
      by (simp add: scriptnum_def le_value_def unat_byte_of_nat)
    then show ?thesis using 3
      by (simp add: asm_chunk_def numberToChunk_def OP_PUSHDATA4_def asm_data_def show_int_nat)
  next
    case 4
    have hi: "n div 256 < 128" using assms by simp
    then have "n div 256 mod 256 = n div 256" by simp
    then have "scriptnum [of_nat (n mod 256) :: byte, of_nat (n div 256)] = int n"
      using hi by (simp add: scriptnum_def le_value_def unat_byte_of_nat)
    then show ?thesis using 4
      by (simp add: asm_chunk_def numberToChunk_def OP_PUSHDATA4_def asm_data_def show_int_nat)
  qed
qed

lemma asm_chunk_bufferToChunk:
  assumes "4 < length b" "\<not> der_shape (map unat b)"
  shows "asm_chunk (bufferToChunk b) = hex_encode b"
  using assms
  by (auto simp: asm_chunk_def bufferToChunk_def OP_PUSHDATA4_def asm_data_def)

lemma asm_chunk_ord: "asm_chunk (bufferToChunk (bytes_of ''ord'')) = ''6582895''"
  apply (simp add: asm_chunk_def bufferToChunk_def OP_PUSHDATA4_def asm_data_def bytes_of_def scriptnum_def le_value_def show_int_def)
  apply (simp add: show_nat.simps digit_char_def char_of_eq_iff)
  done

lemma token_ok_show_int: "token_ok (show_int i)"
  using show_nat_token(3) [of "nat i"] show_nat_token(3) [of "nat (- i)"]
  by (auto simp: show_int_def token_ok_def plain_def)

lemma list_all_plain_literal:
  "list_all plain ''[ALL]''" "list_all plain ''[NONE]''" "list_all plain ''[SINGLE]''"
  "list_all plain ''[ALL|ANYONECANPAY]''" "list_all plain ''[NONE|ANYONECANPAY]''"
  "list_all plain ''[SINGLE|ANYONECANPAY]''" "list_all plain ''OP_DROP''"
  "list_all plain ''OP_CHECKSIGVERIFY''" "list_all plain ''OP_UNKNOWN''" "list_all plain ''-1''"
  by (simp_all add: plain_def)

lemma token_ok_asm_data: "token_ok (asm_data b)"
proof (cases "length b \<le> 4")
  case True
  then show ?thesis by (simp add: asm_data_def token_ok_show_int)
next
  case False
  then have ne: "hex_encode b \<noteq> []" using length_hex_encode [of b] by auto
  show ?thesis using False ne list_all_plain_literal plain_hex_encode [of b] plain_hex_encode [of "butlast b"]
    by (auto simp: asm_data_def token_ok_def sighash_name_def split: option.splits if_splits)
qed

lemma token_ok_op_name: "token_ok (op_name n)"
  using show_nat_token(3) [of "n - 80"] list_all_plain_literal
  by (simp add: op_name_def token_ok_def)

lemma token_ok_asm_chunk: "token_ok (asm_chunk c)"
  by (simp add: asm_chunk_def token_ok_asm_data token_ok_op_name)

lemma asm_tokens_asm_of:
  "s \<noteq> [] \<Longrightarrow> asm_tokens (asm_of s) = map asm_chunk s \<and> asm_of s \<noteq> []"
  using asm_tokens_join [of "map asm_chunk s"] join_spaces_nonempty [of "map asm_chunk s"]
  by (simp add: asm_of_def list_all_iff token_ok_asm_chunk)

section \<open>The shape of a built chain\<close>

lemma flat2_simps [simp]:
  "flat2 [] = []" "flat2 ((a, b) # cps) = a # b # flat2 cps" "flat2 (xs @ ys) = flat2 xs @ flat2 ys"
  by (simp_all add: flat2_def)

lemma length_flat2 [simp]: "length (flat2 cps) = 2 * length cps"
  by (induction cps) auto

lemma toBuffer_append: "toBuffer (xs @ ys) = toBuffer xs @ toBuffer ys"
  by (simp add: toBuffer_def)

lemma length_toBuffer_flat2_snoc:
  "length (toBuffer (P @ flat2 (xs @ [p]))) = length (toBuffer (P @ flat2 xs)) + pair_size p"
  by (cases p) (simp add: toBuffer_def pair_size_def)

lemma fund_loop_shape:
  "\<exists>more. t_inputs (fund_loop sg us t) = t_inputs t @ more \<and>
          t_outputs (fund_loop sg us t) = t_outputs t \<and>
          list_all (\<lambda>j. \<exists>u. i_script j = wallet_unlock sg u) more"
proof (induction us arbitrary: t)
  case Nil
  then show ?case by simp
next
  case (Cons u us)
  show ?case
  proof (cases "t_inputs t \<noteq> [] \<and> t_outputs t \<noteq> [] \<and> inputAmount t \<ge> outputAmount t + getFee sg t")
    case True
    then show ?thesis by simp
  next
    case False
    from Cons.IH [of "tx_from sg u t"] obtain more where
      m: "t_inputs (fund_loop sg us (tx_from sg u t)) = t_inputs (tx_from sg u t) @ more"
        "t_outputs (fund_loop sg us (tx_from sg u t)) = t_outputs (tx_from sg u t)"
        "list_all (\<lambda>j. \<exists>u. i_script j = wallet_unlock sg u) more"
      by blast
    have "list_all (\<lambda>j. \<exists>u. i_script j = wallet_unlock sg u)
            (TxIn (u_txid u) (u_vout u) (u_satoshis u) (wallet_unlock sg u) # more)"
      using m(3) by auto
    then show ?thesis using False m
      by (auto simp: tx_from_def intro!: exI [of _ "TxIn (u_txid u) (u_vout u) (u_satoshis u) (wallet_unlock sg u) # more"])
  qed
qed

lemma fund_shape:
  assumes "fund sg w t = Inr t'"
  shows "\<exists>more outs. t_inputs t' = t_inputs t @ more \<and> t_outputs t' = t_outputs t @ outs \<and>
          list_all (\<lambda>j. \<exists>u. i_script j = wallet_unlock sg u) more"
proof -
  from fund_loop_shape [of sg "utxos w" t] obtain more where
    m: "t_inputs (fund_loop sg (utxos w) t) = t_inputs t @ more"
       "t_outputs (fund_loop sg (utxos w) t) = t_outputs t"
       "list_all (\<lambda>j. \<exists>u. i_script j = wallet_unlock sg u) more"
    by blast
  from assms have "t' = with_change sg (address w) (fund_loop sg (utxos w) t)"
    by (simp add: fund_def Let_def split: if_splits)
  then show ?thesis using m by (auto simp: with_change_def)
qed

lemma finish_tx_first:
  assumes "finish_tx sg b t = Inr (stx, b')" "b_p2shInput b = None"
  shows "b_txs b' = b_txs b @ [stx] \<and> b_chunks b' = b_chunks b \<and>
         (\<exists>outs. t_outputs stx = t_outputs t @ outs)"
proof -
  from assms obtain funded where f: "fund sg (b_wallet b) t = Inr funded" and s: "stx = funded"
    and b': "b' = b\<lparr> b_wallet := updateWallet (b_wallet b) stx, b_txs := b_txs b @ [stx] \<rparr>"
    by (auto simp: finish_tx_def Let_def split: sum.splits)
  from fund_shape [OF f] s b' show ?thesis by auto
qed

lemma finish_tx_carries:
  assumes "finish_tx sg b (Tx [TxIn (TxHash prev) 0 100000 []] outs0) = Inr (stx, b')"
    and "b_p2shInput b = Some (TxIn (TxHash prev) 0 100000 [])"
    and "b_lastLock b = lock_script sg (b_lastPartial b)"
  shows "b_txs b' = b_txs b @ [stx] \<and> b_chunks b' = b_chunks b \<and>
         carries sg prev (b_lastPartial b) stx \<and> (\<exists>outs. t_outputs stx = outs0 @ outs)"
proof -
  let ?t = "Tx [TxIn (TxHash prev) 0 100000 []] outs0"
  from assms(1,2) obtain funded where f: "fund sg (b_wallet b) ?t = Inr funded"
    and s: "stx = setScript0 (unlock_script sg funded (b_lastLock b) (b_lastPartial b)) funded"
    and b': "b' = b\<lparr> b_wallet := updateWallet (b_wallet b) stx, b_txs := b_txs b @ [stx] \<rparr>"
    by (auto simp: finish_tx_def Let_def split: sum.splits)
  from fund_shape [OF f] obtain more outs where
    m: "t_inputs funded = TxIn (TxHash prev) 0 100000 [] # more" "t_outputs funded = outs0 @ outs"
       "list_all (\<lambda>j. \<exists>u. i_script j = wallet_unlock sg u) more"
    by auto
  have "carries sg prev (b_lastPartial b) stx"
    unfolding carries_def s using m assms(3)
    by (auto simp: setScript0_def intro!: exI [of _ funded])
  then show ?thesis using b' s m by (auto simp: setScript0_def)
qed

lemma fill_partial_pairs:
  "\<exists>j \<le> length cps.
     fill_partial P (flat2 cps) = Inr (P @ flat2 (take j cps), flat2 (drop j cps)) \<and>
     (length (toBuffer P) \<le> MAX_PAYLOAD_LEN \<and> cps \<noteq> [] \<longrightarrow>
        1 \<le> j \<and> length (toBuffer (P @ flat2 (take (j - 1) cps))) \<le> MAX_PAYLOAD_LEN) \<and>
     (length (toBuffer P) > MAX_PAYLOAD_LEN \<longrightarrow> j = 0)"
proof (induction cps arbitrary: P)
  case Nil
  show ?case by (subst fill_partial.simps) simp
next
  case (Cons cp cps)
  obtain a b where cp: "cp = (a, b)" by (cases cp)
  show ?case
  proof (cases "length (toBuffer P) \<le> MAX_PAYLOAD_LEN")
    case False
    then show ?thesis by (subst fill_partial.simps) (auto intro!: exI [of _ 0])
  next
    case True
    from Cons.IH [of "P @ [a, b]"] obtain j where j: "j \<le> length cps"
      "fill_partial (P @ [a, b]) (flat2 cps) = Inr ((P @ [a, b]) @ flat2 (take j cps), flat2 (drop j cps))"
      "length (toBuffer (P @ [a, b])) \<le> MAX_PAYLOAD_LEN \<and> cps \<noteq> [] \<longrightarrow>
        1 \<le> j \<and> length (toBuffer ((P @ [a, b]) @ flat2 (take (j - 1) cps))) \<le> MAX_PAYLOAD_LEN"
      "length (toBuffer (P @ [a, b])) > MAX_PAYLOAD_LEN \<longrightarrow> j = 0"
      by blast
    have step: "fill_partial P (flat2 (cp # cps)) = fill_partial (P @ [a, b]) (flat2 cps)"
      using True cp by (subst fill_partial.simps) simp
    have prev: "length (toBuffer (P @ flat2 (take (Suc j - 1) (cp # cps)))) \<le> MAX_PAYLOAD_LEN"
    proof (cases "j = 0")
      case True
      then show ?thesis using \<open>length (toBuffer P) \<le> MAX_PAYLOAD_LEN\<close> by simp
    next
      case False
      then have "length (toBuffer (P @ [a, b])) \<le> MAX_PAYLOAD_LEN" "cps \<noteq> []"
        using j(4) j(1) by auto
      with j(3) have "length (toBuffer ((P @ [a, b]) @ flat2 (take (j - 1) cps))) \<le> MAX_PAYLOAD_LEN"
        by blast
      moreover have "take (Suc j - 1) (cp # cps) = cp # take (j - 1) cps"
        using False by (cases j) simp_all
      ultimately show ?thesis using cp by simp
    qed
    show ?thesis
      using j(1,2) step prev True cp
      by (intro exI [of _ "Suc j"]) simp
  qed
qed

lemma take_flat2_butlast:
  "1 \<le> j \<Longrightarrow> j \<le> length cps \<Longrightarrow>
   take (length (P @ flat2 (take j cps)) - 2) (P @ flat2 (take j cps)) = P @ flat2 (take (j - 1) cps) \<and>
   drop (length (P @ flat2 (take j cps)) - 2) (P @ flat2 (take j cps)) @ flat2 (drop j cps) =
     flat2 (drop (j - 1) cps)"
proof -
  assume j: "1 \<le> j" "j \<le> length cps"
  then obtain k where k: "j = Suc k" by (cases j) auto
  have t: "take (Suc k) cps = take k cps @ [cps ! k]" using j k by (simp add: take_Suc_conv_app_nth)
  have d: "drop k cps = cps ! k # drop (Suc k) cps" using j k by (simp add: Cons_nth_drop_Suc)
  obtain a b where ab: "cps ! k = (a, b)" by (cases "cps ! k")
  show ?thesis unfolding k t by (simp add: d ab)
qed

lemma pack_step:
  assumes "length (toBuffer P) \<le> 4" "cps \<noteq> []" "small_pairs cps"
  shows "\<exists>seg rest. cps = seg @ rest \<and> seg \<noteq> [] \<and>
           (\<exists>filled. fill_partial P (flat2 cps) = Inr filled \<and>
                      revert_last filled = (P @ flat2 seg, flat2 rest))"
proof -
  have P: "length (toBuffer P) \<le> MAX_PAYLOAD_LEN" using assms(1) by (simp add: MAX_PAYLOAD_LEN_def)
  from fill_partial_pairs [of cps P] P assms(2) obtain j where j: "j \<le> length cps" "1 \<le> j"
    and f: "fill_partial P (flat2 cps) = Inr (P @ flat2 (take j cps), flat2 (drop j cps))"
    and before: "length (toBuffer (P @ flat2 (take (j - 1) cps))) \<le> MAX_PAYLOAD_LEN"
    by blast
  show ?thesis
  proof (cases "length (toBuffer (P @ flat2 (take j cps))) > MAX_PAYLOAD_LEN")
    case False
    have "take j cps \<noteq> []" using j assms(2) by (cases cps; cases j) auto
    moreover have "revert_last (P @ flat2 (take j cps), flat2 (drop j cps)) =
                     (P @ flat2 (take j cps), flat2 (drop j cps))"
      using False by (simp add: revert_last_def)
    ultimately show ?thesis using f
      by (intro exI [of _ "take j cps"] exI [of _ "drop j cps"]) simp
  next
    case True
    have r: "revert_last (P @ flat2 (take j cps), flat2 (drop j cps)) =
               (P @ flat2 (take (j - 1) cps), flat2 (drop (j - 1) cps))"
      using True take_flat2_butlast [OF j(2,1), of P] by (simp add: revert_last_def)
    have "j \<noteq> 1"
    proof
      assume "j = 1"
      then have "take j cps = [hd cps]" using assms(2) by (cases cps) auto
      moreover have "pair_size (hd cps) \<le> 1496" using assms(2,3) by (cases cps) (auto simp: small_pairs_def)
      ultimately have "length (toBuffer (P @ flat2 (take j cps))) \<le> 1500"
        using length_toBuffer_flat2_snoc [of P "[]" "hd cps"] assms(1) by simp
      with True show False by (simp add: MAX_PAYLOAD_LEN_def)
    qed
    with j have "take (j - 1) cps \<noteq> []" using assms(2) by (cases cps; cases j) auto
    then show ?thesis using f r
      by (intro exI [of _ "take (j - 1) cps"] exI [of _ "drop (j - 1) cps"]) simp
  qed
qed

lemma setScript0_outputs: "t_outputs (setScript0 s t) = t_outputs t"
  by (cases t) (simp add: setScript0_def split: list.splits)

lemma finish_tx_outputs:
  assumes "finish_tx sg b t = Inr (stx, b')"
  shows "b_txs b' = b_txs b @ [stx] \<and> b_chunks b' = b_chunks b \<and>
         (\<exists>outs. t_outputs stx = t_outputs t @ outs)"
proof -
  from assms obtain funded where f: "fund sg (b_wallet b) t = Inr funded"
    and s: "t_outputs stx = t_outputs funded"
    and b': "b' = b\<lparr> b_wallet := updateWallet (b_wallet b) stx, b_txs := b_txs b @ [stx] \<rparr>"
    by (auto simp: finish_tx_def Let_def setScript0_outputs split: sum.splits option.splits)
  from fund_shape [OF f] s b' show ?thesis by auto
qed

lemma commit_step_outputs:
  assumes "commit_step sg b = Inr b'"
  shows "\<exists>stx lock outs. b_txs b' = b_txs b @ [stx] \<and>
           t_outputs stx = TxOut (P2SH lock) 100000 # outs"
proof -
  from assms obtain t stx b0 lock where
    f: "finish_tx sg b t = Inr (stx, b0)" and t: "t_outputs t = [TxOut (P2SH lock) 100000]"
    and b': "b_txs b' = b_txs b0"
    by (auto simp: commit_step_def Let_def split: sum.splits prod.splits)
  from finish_tx_outputs [OF f] t b' show ?thesis by auto
qed

lemma commit_loop_outputs:
  "commit_loop fuel sg b = Some (Inr b') \<Longrightarrow>
   \<exists>ts. b_txs b' = b_txs b @ ts \<and> (b_chunks b \<noteq> [] \<longrightarrow> ts \<noteq> []) \<and> b_chunks b' = [] \<and>
        list_all (\<lambda>t. \<exists>lock outs. t_outputs t = TxOut (P2SH lock) 100000 # outs) ts"
proof (induction fuel arbitrary: b)
  case 0
  then show ?case by (subst (asm) commit_loop.simps) (auto split: if_splits)
next
  case (Suc k)
  show ?case
  proof (cases "b_chunks b = []")
    case True
    with Suc.prems show ?thesis by (subst (asm) commit_loop.simps) auto
  next
    case False
    with Suc.prems obtain b1 where s: "commit_step sg b = Inr b1"
      and l: "commit_loop k sg b1 = Some (Inr b')"
      by (subst (asm) commit_loop.simps) (auto split: sum.splits)
    from commit_step_outputs [OF s] obtain stx lock outs where
      st: "b_txs b1 = b_txs b @ [stx]" "t_outputs stx = TxOut (P2SH lock) 100000 # outs"
      by blast
    from Suc.IH [OF l] obtain ts where
      ts: "b_txs b' = b_txs b1 @ ts" "b_chunks b' = []"
          "list_all (\<lambda>t. \<exists>lock outs. t_outputs t = TxOut (P2SH lock) 100000 # outs) ts"
      by blast
    have "list_all (\<lambda>t. \<exists>lock outs. t_outputs t = TxOut (P2SH lock) 100000 # outs) (stx # ts)"
      using st(2) ts(3) by simp
    then show ?thesis using st(1) ts(1,2)
      by (intro exI [of _ "stx # ts"]) simp
  qed
qed

lemma inscription_chunks_nonempty: "inscription_chunks contentType data \<noteq> []"
  by (simp add: inscription_chunks_def)

lemma inscribe_outputs:
  assumes "inscribe fuel sg w addr contentType data = Some (Inr txs)"
  shows "\<exists>ts reveal outs. txs = ts @ [reveal] \<and> ts \<noteq> [] \<and>
           list_all (\<lambda>t. \<exists>lock outs. t_outputs t = TxOut (P2SH lock) 100000 # outs) ts \<and>
           t_outputs reveal = TxOut (PayTo addr) 100000 # outs"
proof -
  let ?b0 = "\<lparr> b_txs = [], b_wallet = w, b_chunks = inscription_chunks contentType data,
               b_p2shInput = None, b_lastLock = [], b_lastPartial = [] \<rparr>"
  from assms obtain b t stx b' where
    l: "commit_loop fuel sg ?b0 = Some (Inr b)"
    and f: "finish_tx sg b t = Inr (stx, b')" and t: "t_outputs t = [TxOut (PayTo addr) 100000]"
    and txs: "txs = b_txs b'"
    by (auto simp: inscribe_def split: option.splits sum.splits prod.splits)
  from commit_loop_outputs [OF l] obtain ts where
    ts: "b_txs b = ts" "ts \<noteq> []"
        "list_all (\<lambda>t. \<exists>lock outs. t_outputs t = TxOut (P2SH lock) 100000 # outs) ts"
    by (auto simp: inscription_chunks_nonempty)
  from finish_tx_outputs [OF f] t obtain outs where
    "b_txs b' = b_txs b @ [stx]" "t_outputs stx = TxOut (PayTo addr) 100000 # outs"
    by auto
  with ts txs show ?thesis by blast
qed

lemma second_is_last_iff:
  assumes "txs = ts @ [reveal]" "ts \<noteq> []"
    "list_all (\<lambda>t. \<exists>lock outs. t_outputs t = TxOut (P2SH lock) 100000 # outs) ts"
    "t_outputs reveal = TxOut (PayTo addr) 100000 # outs"
  shows "2 \<le> length txs \<and> last txs = reveal \<and> (txs ! 1 = last txs) = (length txs = 2)"
proof -
  have len: "2 \<le> length txs" using assms(1,2) by (cases ts) auto
  have "txs ! 1 \<noteq> last txs" if "length txs \<noteq> 2"
  proof -
    from that len assms(1) have "1 < length ts" by auto
    then have "txs ! 1 = ts ! 1" "ts ! 1 \<in> set ts" using assms(1) by (auto simp: nth_append)
    with assms(3) obtain lock outs' where "t_outputs (txs ! 1) = TxOut (P2SH lock) 100000 # outs'"
      by (auto simp: list_all_iff)
    with assms(1,4) show ?thesis by auto
  qed
  moreover have "txs ! 1 = last txs" if "length txs = 2"
    using that assms(1) by (cases ts) (auto simp: nth_append)
  ultimately show ?thesis using len assms(1) by auto
qed

subsection \<open>Evaluating the builder\<close>

lemma length_toBuffer_Cons:
  "length (toBuffer (c # cs)) = length (chunk_bytes c) + length (toBuffer cs)"
  "length (toBuffer []) = 0"
  by (simp_all add: toBuffer_def)

lemma length_chunk_bytes_bufferToChunk:
  "length b \<le> 255 \<Longrightarrow>
   length (chunk_bytes (bufferToChunk b)) = (if length b \<le> 75 then 1 + length b else 2 + length b)"
  by (auto simp: chunk_bytes_def bufferToChunk_def OP_PUSHDATA1_def)

lemma length_chunk_bytes_numberToChunk:
  "length (chunk_bytes (numberToChunk n)) = (if n \<le> 16 then 1 else if n < 128 then 2 else 3)"
  by (simp add: chunk_bytes_def numberToChunk_def OP_PUSHDATA1_def)

lemma split_parts_replicate:
  "split_parts (replicate n x) =
     (if n = 0 then [] else replicate (min 240 n) x # split_parts (replicate (n - min 240 n) x))"
  by (subst split_parts.simps) (simp add: MAX_CHUNK_LEN_def)

lemma split_parts_Nil: "split_parts [] = []"
  by (subst split_parts.simps) simp

lemma split_parts_short: "data \<noteq> [] \<Longrightarrow> length data \<le> 240 \<Longrightarrow> split_parts data = [data]"
  by (subst split_parts.simps) (simp add: MAX_CHUNK_LEN_def split_parts_Nil)

lemma long_parts:
  "split_parts (replicate 1680 x) =
     [replicate 240 x, replicate 240 x, replicate 240 x, replicate 240 x,
      replicate 240 x, replicate 240 x, replicate 240 x]"
  by (simp add: split_parts_replicate split_parts_Nil)

lemma length_bytes_of: "length (bytes_of s) = length s"
  by (simp add: bytes_of_def)

lemma bytes_of_eq_Nil: "(bytes_of s = []) = (s = [])"
  by (simp add: bytes_of_def)

lemmas build_eval = inscribe_def commit_loop.simps commit_step_def fill_partial.simps revert_last_def
  finish_tx_def fund_def with_change_def tx_from_def inputAmount_def outputAmount_def updateWallet_def
  spent_by_def own_outputs_def setScript0_def example_signer_def example_wallet_def Let_def
  length_toBuffer_Cons toBuffer_append length_chunk_bytes_bufferToChunk length_chunk_bytes_numberToChunk
  MAX_PAYLOAD_LEN_def inscription_chunks_def length_bytes_of bytes_of_eq_Nil

lemma chain_of_length:
  assumes "map_option (map_sum id length) r = Some (Inr n)"
  shows "r = Some (Inr (chain_of r)) \<and> length (chain_of r) = n"
proof -
  from assms obtain x where r: "r = Some x" and x: "map_sum id length x = Inr n" by auto
  from x obtain txs where "x = Inr txs" "length txs = n" by (cases x) auto
  with r show ?thesis by (simp add: chain_of_def)
qed

lemma long_chain_length:
  "map_option (map_sum id length)
     (inscribe 3 example_signer example_wallet ''D2'' ''text/plain'' (replicate 1680 0x41)) = Some (Inr 3)"
  by (simp add: build_eval long_parts)

lemma short_chain_length:
  "map_option (map_sum id length)
     (inscribe 2 example_signer example_wallet ''D2'' ''text/plain'' (bytes_of ''hello'')) = Some (Inr 2)"
  by (simp add: build_eval split_parts_short)

lemma broadcast_from_accepted:
  "broadcast_from all_accepted False txs st = Some (Returned (), st\<lparr>posts := posts st + length txs\<rparr>)"
  by (induction txs arbitrary: st) (simp_all add: broadcast_once all_accepted_def)

lemma broadcastAll_accepted:
  "2 \<le> length txs \<Longrightarrow>
   broadcastAll all_accepted False txs \<lparr>posts = 0, pending = None\<rparr> =
     Some (Returned \<lparr> txids = map TxHash txs, inscriptionTxid = Some (TxHash (txs ! 1)) \<rparr>,
           \<lparr>posts = length txs, pending = None\<rparr>)"
  by (simp add: broadcastAll_def broadcast_from_accepted)

lemma inscribe_second_last:
  assumes "inscribe fuel sg w addr contentType data = Some (Inr txs)"
  shows "2 \<le> length txs \<and> (\<exists>outs. t_outputs (last txs) = TxOut (PayTo addr) 100000 # outs) \<and>
         (txs ! 1 = last txs) = (length txs = 2)"
proof -
  from inscribe_outputs [OF assms] obtain ts reveal outs where
    s: "txs = ts @ [reveal]" "ts \<noteq> []"
       "list_all (\<lambda>t. \<exists>lock outs. t_outputs t = TxOut (P2SH lock) 100000 # outs) ts"
       "t_outputs reveal = TxOut (PayTo addr) 100000 # outs"
    by blast
  from second_is_last_iff [OF s] s(4) show ?thesis by auto
qed


subsection \<open>The builder's chain is linked\<close>

lemma commit_step_first:
  assumes "commit_step sg b = Inr b'"
    and "b_txs b = []" "b_p2shInput b = None" "b_chunks b = c0 # flat2 cps"
    and "length (toBuffer [c0]) \<le> 4" "cps \<noteq> []" "small_pairs cps"
  shows "\<exists>t0 seg rest. cps = seg @ rest \<and> seg \<noteq> [] \<and> b_txs b' = [t0] \<and>
           after_turn sg b' t0 (c0 # flat2 seg) rest"
proof -
  from pack_step [OF assms(5,6,7)] obtain seg rest filled where
    p: "cps = seg @ rest" "seg \<noteq> []" "fill_partial [c0] (flat2 cps) = Inr filled"
       "revert_last filled = ([c0] @ flat2 seg, flat2 rest)"
    by blast
  let ?P = "c0 # flat2 seg"
  let ?t = "Tx [] [TxOut (P2SH (lock_script sg ?P)) 100000]"
  from assms(1,2,3,4) p(3,4) obtain stx b0 where
    f: "finish_tx sg b ?t = Inr (stx, b0)"
    and b': "b' = b0\<lparr> b_chunks := flat2 rest,
                        b_p2shInput := Some (TxIn (TxHash stx) 0 100000 []),
                        b_lastLock := lock_script sg ?P, b_lastPartial := ?P \<rparr>"
    by (auto simp: commit_step_def Let_def split: sum.splits prod.splits)
  from finish_tx_first [OF f assms(3)] assms(2) have "b_txs b0 = [stx]" by simp
  with b' p(1,2) show ?thesis
    by (intro exI [of _ stx] exI [of _ seg] exI [of _ rest]) (simp add: after_turn_def)
qed

lemma commit_step_next:
  assumes "commit_step sg b = Inr b'"
    and "after_turn sg b prev P cps" "cps \<noteq> []" "small_pairs cps"
  shows "\<exists>t seg rest. cps = seg @ rest \<and> seg \<noteq> [] \<and> b_txs b' = b_txs b @ [t] \<and>
           carries sg prev P t \<and> after_turn sg b' t (flat2 seg) rest"
proof -
  have a: "b_txs b \<noteq> []" "b_p2shInput b = Some (TxIn (TxHash prev) 0 100000 [])"
    "b_lastPartial b = P" "b_lastLock b = lock_script sg P" "b_chunks b = flat2 cps"
    using assms(2) by (simp_all add: after_turn_def)
  have "length (toBuffer []) \<le> 4" by (simp add: toBuffer_def)
  from pack_step [OF this assms(3,4)] obtain seg rest filled where
    p: "cps = seg @ rest" "seg \<noteq> []" "fill_partial [] (flat2 cps) = Inr filled"
       "revert_last filled = ([] @ flat2 seg, flat2 rest)"
    by blast
  let ?t = "Tx [TxIn (TxHash prev) 0 100000 []] [TxOut (P2SH (lock_script sg (flat2 seg))) 100000]"
  from assms(1) a p(3,4) obtain stx b0 where
    f: "finish_tx sg b ?t = Inr (stx, b0)"
    and b': "b' = b0\<lparr> b_chunks := flat2 rest,
                        b_p2shInput := Some (TxIn (TxHash stx) 0 100000 []),
                        b_lastLock := lock_script sg (flat2 seg), b_lastPartial := flat2 seg \<rparr>"
    by (auto simp: commit_step_def Let_def split: sum.splits prod.splits)
  from finish_tx_carries [OF f a(2)] a(3,4)
  have c: "b_txs b0 = b_txs b @ [stx]" "carries sg prev P stx" by simp_all
  with b' p(1,2) show ?thesis
    by (intro exI [of _ stx] exI [of _ seg] exI [of _ rest]) (simp add: after_turn_def)
qed

lemma small_pairs_append: "small_pairs (xs @ ys) = (small_pairs xs \<and> small_pairs ys)"
  by (simp add: small_pairs_def)

lemma commit_loop_links:
  "commit_loop fuel sg b = Some (Inr b') \<Longrightarrow> after_turn sg b prev P cps \<Longrightarrow> small_pairs cps \<Longrightarrow>
   \<exists>ts prev' P'. b_txs b' = b_txs b @ ts \<and> after_turn sg b' prev' P' [] \<and>
     (\<forall>t. carries sg prev' P' t \<longrightarrow> links sg prev P cps (ts @ [t]))"
proof (induction fuel arbitrary: b prev P cps)
  case 0
  from "0.prems"(1) have e: "b_chunks b = []" "b' = b"
    by (subst (asm) commit_loop.simps, auto split: if_splits)+
  with "0.prems"(2) have "cps = []" by (cases cps) (auto simp: after_turn_def)
  with e "0.prems"(2) show ?case
    by (intro exI [of _ "[]"] exI [of _ prev] exI [of _ P]) (auto intro: links.last_link)
next
  case (Suc k)
  show ?case
  proof (cases "cps = []")
    case True
    with Suc.prems(2) have "b_chunks b = []" by (simp add: after_turn_def)
    with Suc.prems(1) have "b' = b" by (subst (asm) commit_loop.simps) auto
    with True Suc.prems(2) show ?thesis
      by (intro exI [of _ "[]"] exI [of _ prev] exI [of _ P]) (auto intro: links.last_link)
  next
    case False
    with Suc.prems(2) have "b_chunks b \<noteq> []" by (cases cps) (auto simp: after_turn_def)
    with Suc.prems(1) obtain b1 where s: "commit_step sg b = Inr b1"
      and l: "commit_loop k sg b1 = Some (Inr b')"
      by (subst (asm) commit_loop.simps) (auto split: sum.splits)
    from commit_step_next [OF s Suc.prems(2) False Suc.prems(3)] obtain t seg rest where
      st: "cps = seg @ rest" "seg \<noteq> []" "b_txs b1 = b_txs b @ [t]" "carries sg prev P t"
          "after_turn sg b1 t (flat2 seg) rest"
      by blast
    have "small_pairs rest" using Suc.prems(3) st(1) by (simp add: small_pairs_append)
    from Suc.IH [OF l st(5) this] obtain ts prev' P' where
      ih: "b_txs b' = b_txs b1 @ ts" "after_turn sg b' prev' P' []"
          "\<forall>t'. carries sg prev' P' t' \<longrightarrow> links sg t (flat2 seg) rest (ts @ [t'])"
      by blast
    have "\<forall>t'. carries sg prev' P' t' \<longrightarrow> links sg prev P cps ((t # ts) @ [t'])"
      using ih(3) st(1,2,4) by (auto intro: links.next_link)
    with ih(1,2) st(3) show ?thesis
      by (intro exI [of _ "t # ts"] exI [of _ prev'] exI [of _ P']) simp
  qed
qed


lemma part_chunks_pairs: "part_chunks count n ps = flat2 (part_pairs count n ps)"
  by (induction ps arbitrary: n) simp_all

lemma inscription_chunks_pairs:
  "inscription_chunks contentType data =
     bufferToChunk (bytes_of ''ord'') # flat2 (envelope_pairs contentType data)"
  by (simp add: inscription_chunks_def envelope_pairs_def part_chunks_pairs)

lemma split_parts_concat: "concat (split_parts data) = data"
proof (induction data rule: split_parts.induct)
  case (1 data)
  show ?case
  proof (cases "length data = 0")
    case True
    then show ?thesis by (subst split_parts.simps) simp
  next
    case False
    from "1.IH" [OF False] show ?thesis
      using False by (subst split_parts.simps) simp
  qed
qed

lemma split_parts_lengths: "list_all (\<lambda>p. p \<noteq> [] \<and> length p \<le> 240) (split_parts data)"
proof (induction data rule: split_parts.induct)
  case (1 data)
  show ?case
  proof (cases "length data = 0")
    case True
    then show ?thesis by (subst split_parts.simps) simp
  next
    case False
    from "1.IH" [OF False] show ?thesis
      using False by (subst split_parts.simps) (auto simp: MAX_CHUNK_LEN_def)
  qed
qed

lemma split_parts_nonempty: "data \<noteq> [] \<Longrightarrow> split_parts data \<noteq> []"
  by (subst split_parts.simps) simp

lemma length_le_bytes: "length (le_bytes k n) = k"
  by (induction k arbitrary: n) simp_all

lemma chunk_bytes_bufferToChunk_le: "length (chunk_bytes (bufferToChunk b)) \<le> 3 + length b"
  by (auto simp: chunk_bytes_def bufferToChunk_def OP_PUSHDATA1_def OP_PUSHDATA2_def length_le_bytes)

lemma small_part_pairs:
  "list_all (\<lambda>p. p \<noteq> [] \<and> length p \<le> 240) ps \<Longrightarrow> small_pairs (part_pairs count n ps)"
proof (induction ps arbitrary: n)
  case Nil
  then show ?case by (simp add: small_pairs_def)
next
  case (Cons p ps)
  have "pair_size (numberToChunk (count - n - 1), bufferToChunk p) \<le> 1496"
    using Cons.prems chunk_bytes_bufferToChunk_le [of p]
    by (simp add: pair_size_def length_chunk_bytes_numberToChunk)
  with Cons show ?case by (simp add: small_pairs_def)
qed

lemma small_envelope_pairs:
  "length contentType \<le> 520 \<Longrightarrow> small_pairs (envelope_pairs contentType data)"
  using small_part_pairs [OF split_parts_lengths, of "length (split_parts data)" 0 data]
    chunk_bytes_bufferToChunk_le [of "bytes_of contentType"]
  by (simp add: envelope_pairs_def small_pairs_def pair_size_def length_chunk_bytes_numberToChunk
      length_bytes_of)

lemma inscribe_links:
  assumes "inscribe fuel sg w addr contentType data = Some (Inr txs)"
    and "small_pairs (envelope_pairs contentType data)"
  shows "\<exists>t0 seg0 rest ts. txs = t0 # ts \<and> envelope_pairs contentType data = seg0 @ rest \<and>
           seg0 \<noteq> [] \<and> links sg t0 (bufferToChunk (bytes_of ''ord'') # flat2 seg0) rest ts"
proof -
  let ?ord = "bufferToChunk (bytes_of ''ord'')"
  let ?b0 = "\<lparr> b_txs = [], b_wallet = w, b_chunks = inscription_chunks contentType data,
               b_p2shInput = None, b_lastLock = [], b_lastPartial = [] \<rparr>"
  from assms(1) obtain b t stx b' where
    l: "commit_loop fuel sg ?b0 = Some (Inr b)"
    and f: "finish_tx sg b
              (Tx (case b_p2shInput b of None \<Rightarrow> [] | Some i \<Rightarrow> [i]) [TxOut (PayTo addr) 100000]) =
            Inr (stx, b')"
    and txs: "txs = b_txs b'"
    by (auto simp: inscribe_def split: option.splits sum.splits prod.splits)
  have ne: "envelope_pairs contentType data \<noteq> []" by (simp add: envelope_pairs_def)
  from l obtain k b1 where s: "commit_step sg ?b0 = Inr b1"
    and l1: "commit_loop k sg b1 = Some (Inr b)"
    by (subst (asm) commit_loop.simps)
      (auto simp: inscription_chunks_pairs split: sum.splits nat.splits)
  have o: "length (toBuffer [?ord]) \<le> 4"
    by (simp add: length_toBuffer_Cons length_chunk_bytes_bufferToChunk length_bytes_of)
  from commit_step_first [OF s _ _ _ o ne assms(2)] obtain t0 seg0 rest where
    st: "envelope_pairs contentType data = seg0 @ rest" "seg0 \<noteq> []" "b_txs b1 = [t0]"
        "after_turn sg b1 t0 (?ord # flat2 seg0) rest"
    by (auto simp: inscription_chunks_pairs)
  have "small_pairs rest" using assms(2) st(1) by (simp add: small_pairs_append)
  from commit_loop_links [OF l1 st(4) this] obtain ts prev' P' where
    c: "b_txs b = b_txs b1 @ ts" "after_turn sg b prev' P' []"
       "\<forall>t. carries sg prev' P' t \<longrightarrow> links sg t0 (?ord # flat2 seg0) rest (ts @ [t])"
    by blast
  have a: "b_p2shInput b = Some (TxIn (TxHash prev') 0 100000 [])" "b_lastPartial b = P'"
    "b_lastLock b = lock_script sg (b_lastPartial b)"
    using c(2) by (simp_all add: after_turn_def)
  from f a(1) have f': "finish_tx sg b (Tx [TxIn (TxHash prev') 0 100000 []] [TxOut (PayTo addr) 100000]) =
            Inr (stx, b')"
    by simp
  from finish_tx_carries [OF f' a(1,3)] a(2)
  have "b_txs b' = b_txs b @ [stx]" "carries sg prev' P' stx" by simp_all
  with c(1,3) st(1,2,3) txs show ?thesis
    by (intro exI [of _ t0] exI [of _ seg0] exI [of _ rest] exI [of _ "ts @ [stx]"]) simp
qed

section \<open>The inscription txid reported by the broadcaster\<close>

text \<open>
  Claim C2 as stated: the inscription txid that \<open>broadcastAll\<close> reports for a chain of
  the builder is the hash of the final transaction, the one that pays the destination.
  For the inscription of 1680 bytes the builder makes three transactions; the hash
  reported is that of the second, and the third is the one that pays \<open>D2\<close>.
\<close>

theorem broadcastAll_reports_reveal_counterexample:
  "inscribe 3 example_signer example_wallet ''D2'' ''text/plain'' (replicate 1680 0x41) =
     Some (Inr long_chain) \<and>
   length long_chain = 3 \<and>
   broadcastAll all_accepted False long_chain \<lparr>posts = 0, pending = None\<rparr> =
     Some (Returned \<lparr> txids = map TxHash long_chain,
                       inscriptionTxid = Some (TxHash (long_chain ! 1)) \<rparr>,
           \<lparr>posts = 3, pending = None\<rparr>) \<and>
   TxHash (long_chain ! 1) \<noteq> TxHash (last long_chain)"
proof -
  from chain_of_length [OF long_chain_length]
  have c: "inscribe 3 example_signer example_wallet ''D2'' ''text/plain'' (replicate 1680 0x41) =
             Some (Inr long_chain)" "length long_chain = 3"
    by (simp_all add: long_chain_def)
  from inscribe_second_last [OF c(1)] c(2) have "long_chain ! 1 \<noteq> last long_chain" by simp
  moreover have "broadcastAll all_accepted False long_chain \<lparr>posts = 0, pending = None\<rparr> =
     Some (Returned \<lparr> txids = map TxHash long_chain,
                       inscriptionTxid = Some (TxHash (long_chain ! 1)) \<rparr>,
           \<lparr>posts = 3, pending = None\<rparr>)"
    using broadcastAll_accepted [of long_chain] c(2) by simp
  ultimately show ?thesis using c by simp
qed

text \<open>
  Claim C2, amended: a chain of the builder has at least two transactions, the
  inscription txid that \<open>broadcastAll\<close> reports after broadcasting it to completion is the
  hash of the second, the final transaction pays the destination address, and the hash
  reported is the hash of the final transaction exactly when the chain has two
  transactions.
\<close>

theorem broadcastAll_reports_second:
  assumes "inscribe fuel sg w addr contentType data = Some (Inr txs)"
    and "broadcastAll replies retry txs st = Some (Returned res, st')"
  shows "2 \<le> length txs \<and> inscriptionTxid res = Some (TxHash (txs ! 1)) \<and>
         (\<exists>outs. t_outputs (last txs) = TxOut (PayTo addr) 100000 # outs) \<and>
         (TxHash (txs ! 1) = TxHash (last txs)) = (length txs = 2)"
proof -
  from inscribe_second_last [OF assms(1)] have
    s: "2 \<le> length txs" "\<exists>outs. t_outputs (last txs) = TxOut (PayTo addr) 100000 # outs"
       "(txs ! 1 = last txs) = (length txs = 2)"
    by blast+
  from assms(2) s(1) have "inscriptionTxid res = Some (TxHash (txs ! 1))"
    by (auto simp: broadcastAll_def split: option.splits prod.splits process.splits)
  with s show ?thesis by simp
qed

theorem broadcastAll_reports_second_witness:
  "inscribe 2 example_signer example_wallet ''D2'' ''text/plain'' (bytes_of ''hello'') =
     Some (Inr short_chain) \<and>
   broadcastAll all_accepted False short_chain \<lparr>posts = 0, pending = None\<rparr> =
     Some (Returned \<lparr> txids = map TxHash short_chain,
                       inscriptionTxid = Some (TxHash (short_chain ! 1)) \<rparr>,
           \<lparr>posts = 2, pending = None\<rparr>) \<and>
   length short_chain = 2 \<and>
   TxHash (short_chain ! 1) = TxHash (last short_chain) \<and>
   (\<exists>outs. t_outputs (last short_chain) = TxOut (PayTo ''D2'') 100000 # outs)"
proof -
  from chain_of_length [OF short_chain_length]
  have c: "inscribe 2 example_signer example_wallet ''D2'' ''text/plain'' (bytes_of ''hello'') =
             Some (Inr short_chain)" "length short_chain = 2"
    by (simp_all add: short_chain_def)
  have b: "broadcastAll all_accepted False short_chain \<lparr>posts = 0, pending = None\<rparr> =
     Some (Returned \<lparr> txids = map TxHash short_chain,
                       inscriptionTxid = Some (TxHash (short_chain ! 1)) \<rparr>,
           \<lparr>posts = 2, pending = None\<rparr>)"
    using broadcastAll_accepted [of short_chain] c(2) by simp
  note main = broadcastAll_reports_second [OF c(1) b]
  from main c b show ?thesis by simp
qed

section \<open>Round trip through the builder, the node and the walker\<close>

subsection \<open>One hop of the walker\<close>

lemma genesis_single:
  "processGenesisAsm (''6582895'' # n # m # show_nat 0 # dtok # rest) =
     Inr \<lparr> dataHex = dtok, endOfData = True, chunksFound = 1, lastNumChunks = IntV 0,
           mimeType = (if hexToAscii m \<noteq> [] then hexToAscii m else ''application/octet-stream'') \<rparr>"
  by (simp add: processGenesisAsm_def asm_loop_pairs show_nat_token pair_is_zero_def Let_def)

lemma subsequent_inert:
  "\<not> isIntegerString t \<Longrightarrow>
   processSubsequentAsm (t # ts) =
     \<lparr> dataHex = [], endOfData = False, chunksFound = 0, lastNumChunks = NullV \<rparr>"
  by (cases ts) (simp_all add: processSubsequentAsm_def asm_loop_pairs)

lemma hex_encode_Cons: "hex_encode (x # xs) = hex_byte x @ hex_encode xs"
  by (simp add: hex_encode_def)

lemma wallet_token_inert: "\<not> isIntegerString (asm_chunk (bufferToChunk (replicate 72 0xAB)))"
proof -
  have "\<not> der_shape (map unat (replicate 72 (0xAB :: byte)))"
    by (simp add: der_shape_def)
  then have "asm_chunk (bufferToChunk (replicate 72 0xAB)) = hex_encode (replicate 72 0xAB)"
    by (simp add: asm_chunk_bufferToChunk)
  also have "\<dots> = hex_byte 0xAB @ hex_encode (replicate 71 0xAB)"
    by (simp only: hex_encode_Cons [symmetric] replicate_Suc [symmetric]) simp
  finally show ?thesis
    by (simp add: hex_byte_def hex_digit_def isIntegerString_def strip_minus_def is_digit_def
        char_of_eq_iff)
qed


lemma process_vin_genesis_single:
  assumes "v_asm v = Some (asm_of (bufferToChunk (bytes_of ''ord'') # nc # mc # numberToChunk 0 # dc # others))"
    and "w_isGenesis st"
  shows "\<exists>st'. process_vin clock key v st = Inr st' \<and> w_dataHex st' = w_dataHex st @ asm_chunk dc \<and>
           w_endOfData st' \<and> \<not> w_isGenesis st'"
proof -
  let ?s = "bufferToChunk (bytes_of ''ord'') # nc # mc # numberToChunk 0 # dc # others"
  have t: "asm_tokens (asm_of ?s) =
             ''6582895'' # asm_chunk nc # asm_chunk mc # show_nat 0 # asm_chunk dc # map asm_chunk others"
    and ne: "asm_of ?s \<noteq> []"
    using asm_tokens_asm_of [of ?s] by (simp_all add: asm_chunk_ord asm_chunk_numberToChunk)
  show ?thesis
    using assms ne by (simp add: process_vin_def t genesis_single)
qed

lemma process_vin_inert:
  assumes "v_asm v = Some (asm_of (c # cs))" and "\<not> isIntegerString (asm_chunk c)"
    and "\<not> w_isGenesis st"
  shows "process_vin clock key v st = Inr st"
proof -
  have t: "asm_tokens (asm_of (c # cs)) = asm_chunk c # map asm_chunk cs" and ne: "asm_of (c # cs) \<noteq> []"
    using asm_tokens_asm_of [of "c # cs"] by simp_all
  show ?thesis
    using assms ne by (simp add: process_vin_def t subsequent_inert Let_def)
qed

lemma decode_hop_end:
  assumes "\<not> w_endOfData st" and "w_txid st \<notin> w_processed st"
    and "n_tx nd (w_txid st) = Some raw"
    and "process_vins clock key (r_vin raw) (st\<lparr>w_processed := insert (w_txid st) (w_processed st)\<rparr>) = Inr st'"
    and "w_endOfData st'"
  shows "decode_loop clock nd key depth (Suc left) st = Inr st'"
  using assms by (simp add: getrawtransaction_def)

lemma node_of_pair:
  "a \<noteq> b \<Longrightarrow> n_tx (node_of [a, b]) (TxHash b) = Some \<lparr> r_vin = map vin_of (t_inputs b), r_height = Some 1 \<rparr>"
  by (simp add: node_of_def)

lemma chain_pair:
  assumes "inscribe fuel sg w addr contentType data = Some (Inr txs)" and "length txs = 2"
  shows "\<exists>a b. txs = [a, b] \<and> a \<noteq> b"
proof -
  from assms(2) obtain a b where ab: "txs = [a, b]"
    by (cases txs; cases "tl txs") auto
  from inscribe_outputs [OF assms(1)] obtain ts reveal outs where
    s: "txs = ts @ [reveal]" "ts \<noteq> []"
       "list_all (\<lambda>t. \<exists>lock outs. t_outputs t = TxOut (P2SH lock) 100000 # outs) ts"
       "t_outputs reveal = TxOut (PayTo addr) 100000 # outs"
    by blast
  from s(1,2) ab have "ts = [a]" "reveal = b" by (cases ts; auto)+
  with s(3,4) have "a \<noteq> b" by auto
  with ab show ?thesis by simp
qed

lemma process_vins_single:
  assumes "map i_script ins =
             [bufferToChunk (bytes_of ''ord'') # nc # mc # numberToChunk 0 # dc # others, c # cs]"
    and "\<not> isIntegerString (asm_chunk c)" and "w_isGenesis st"
  shows "\<exists>st'. process_vins clock key (map vin_of ins) st = Inr st' \<and>
           w_dataHex st' = w_dataHex st @ asm_chunk dc \<and> w_endOfData st'"
proof -
  from assms(1) obtain i1 i2 where ins: "ins = [i1, i2]"
    and i1: "i_script i1 = bufferToChunk (bytes_of ''ord'') # nc # mc # numberToChunk 0 # dc # others"
    and i2: "i_script i2 = c # cs"
    by (cases ins; cases "tl ins") auto
  from process_vin_genesis_single [of "vin_of i1" nc mc dc others st clock key] i1 assms(3)
  obtain st1 where s1: "process_vin clock key (vin_of i1) st = Inr st1"
    "w_dataHex st1 = w_dataHex st @ asm_chunk dc" "w_endOfData st1" "\<not> w_isGenesis st1"
    by (auto simp: vin_of_def)
  from process_vin_inert [of "vin_of i2" c cs st1 clock key] i2 assms(2) s1(4)
  have s2: "process_vin clock key (vin_of i2) st1 = Inr st1"
    by (simp add: vin_of_def)
  from s1 s2 ins show ?thesis by simp
qed

lemma decode_single:
  assumes chain: "inscribe fuel sg w addr contentType data = Some (Inr txs)" "length txs = 2"
    and scripts: "map i_script (t_inputs (txs ! 1)) =
             [bufferToChunk (bytes_of ''ord'') # nc # mc # numberToChunk 0 # dc # others, c # cs]"
    and inert: "\<not> isIntegerString (asm_chunk c)"
  shows "written_bytes skip
           (decodeDoginalsChain clock (node_of txs) (TxHash (txs ! 1)) depth key (Suc hops) tr) =
         Some (resultBuf skip (asm_chunk dc))"
proof -
  from chain_pair [OF chain] obtain a b where p: "txs = [a, b]" "a \<noteq> b" by blast
  let ?raw = "\<lparr> r_vin = map vin_of (t_inputs (txs ! 1)), r_height = Some 1 \<rparr> :: txid rawtx"
  have raw: "n_tx (node_of txs) (TxHash (txs ! 1)) = Some ?raw"
    using node_of_pair [OF p(2)] by (simp add: p(1))
  define tr0 where "tr0 = (case getProgress key tr of
                   None \<Rightarrow> initProgress clock key (resetProgressForId key tr)
                 | Some p \<Rightarrow> tr)"
  let ?st = "\<lparr> w_dataHex = [], w_mimeType = None, w_isGenesis = True, w_txid = TxHash (txs ! 1),
                  w_processed = {}, w_voutIndex = 0, w_endOfData = False, w_tracker = tr0 \<rparr>"
  from process_vins_single [OF scripts inert, of "?st\<lparr>w_processed := insert (w_txid ?st) (w_processed ?st)\<rparr>" clock key]
  obtain st' where s: "process_vins clock key (r_vin ?raw)
        (?st\<lparr>w_processed := insert (w_txid ?st) (w_processed ?st)\<rparr>) = Inr st'"
    "w_dataHex st' = asm_chunk dc" "w_endOfData st'"
    by auto
  have raw': "n_tx (node_of txs) (w_txid ?st) = Some ?raw"
    using raw by simp
  have "decode_loop clock (node_of txs) key depth (Suc hops) ?st = Inr st'"
    by (rule decode_hop_end [OF _ _ raw' s(1) s(3)]) simp_all
  moreover have "asm_chunk dc \<noteq> []"
    using token_ok_asm_chunk [of dc] by (simp add: token_ok_def)
  ultimately show ?thesis
    using s(2) by (simp add: decodeDoginalsChain_def written_bytes_def tr0_def Let_def)
qed

subsection \<open>The example chains\<close>

lemma byte_chain_length:
  "map_option (map_sum id length)
     (inscribe 2 example_signer example_wallet ''D2'' ''text/plain'' [0x0c]) = Some (Inr 2)"
  by (simp add: build_eval split_parts_short)

lemma byte_chain_scripts:
  "map i_script (t_inputs (byte_chain ! 1)) =
     [[bufferToChunk (bytes_of ''ord''), numberToChunk 1, bufferToChunk (bytes_of ''text/plain''),
       numberToChunk 0, bufferToChunk [0x0c],
       bufferToChunk (replicate 71 0xAB @ [SIGHASH_ALL]),
       bufferToChunk (toBuffer (lock_script example_signer
         [bufferToChunk (bytes_of ''ord''), numberToChunk 1, bufferToChunk (bytes_of ''text/plain''),
          numberToChunk 0, bufferToChunk [0x0c]]))],
      [bufferToChunk (replicate 72 0xAB), bufferToChunk (replicate 33 0x02)]]"
  by (simp add: byte_chain_def chain_of_def build_eval split_parts_short unlock_script_def)

lemma asm_chunk_byte_12: "asm_chunk (bufferToChunk [0x0c]) = ''12''"
  by (simp add: asm_chunk_def bufferToChunk_def asm_data_def scriptnum_def le_value_def show_int_def
      OP_PUSHDATA4_def show_nat.simps [of 12] show_nat.simps [of "Suc 0"] digit_char_def char_of_eq_iff)

lemma short_chain_length_two:
  "inscribe 2 example_signer example_wallet ''D2'' ''text/plain'' (bytes_of ''hello'') =
     Some (Inr short_chain) \<and> length short_chain = 2"
  using chain_of_length [OF short_chain_length] by (simp add: short_chain_def)

lemma short_chain_scripts:
  "map i_script (t_inputs (short_chain ! 1)) =
     [[bufferToChunk (bytes_of ''ord''), numberToChunk 1, bufferToChunk (bytes_of ''text/plain''),
       numberToChunk 0, bufferToChunk (bytes_of ''hello''),
       bufferToChunk (replicate 71 0xAB @ [SIGHASH_ALL]),
       bufferToChunk (toBuffer (lock_script example_signer
         [bufferToChunk (bytes_of ''ord''), numberToChunk 1, bufferToChunk (bytes_of ''text/plain''),
          numberToChunk 0, bufferToChunk (bytes_of ''hello'')]))],
      [bufferToChunk (replicate 72 0xAB), bufferToChunk (replicate 33 0x02)]]"
  by (simp add: short_chain_def chain_of_def build_eval split_parts_short unlock_script_def)

lemma resultBuf_hex_encode: "resultBuf skip (hex_encode b) = b"
  by (simp add: resultBuf_def length_hex_encode hex_decode_encode)

text \<open>
  The five bytes of \<open>hello\<close> come back: the node prints a part of more than four bytes
  as hex, which is what the walker takes every data token for.
\<close>

lemma inscribe_decode_hello:
  "written_bytes skip
     (decodeDoginalsChain example_clock (node_of short_chain) (TxHash (short_chain ! 1)) 5000 ''k''
        (Suc hops) empty_tracker) = Some (bytes_of ''hello'')"
proof -
  have "\<not> der_shape (map unat (bytes_of ''hello''))"
    by (simp add: der_shape_def length_bytes_of)
  then have "asm_chunk (bufferToChunk (bytes_of ''hello'')) = hex_encode (bytes_of ''hello'')"
    by (simp add: asm_chunk_bufferToChunk length_bytes_of)
  with decode_single [OF short_chain_length_two [THEN conjunct1] short_chain_length_two [THEN conjunct2]
      short_chain_scripts wallet_token_inert, of skip example_clock 5000 "''k''" hops empty_tracker]
  show ?thesis by (simp only: resultBuf_hex_encode)
qed

subsection \<open>The walker on a partial envelope\<close>

lemma length_part_pairs: "length (part_pairs count n ps) = length ps"
  by (induction ps arbitrary: n) simp_all

lemma part_pairs_append:
  "part_pairs count n (xs @ ys) = part_pairs count n xs @ part_pairs count (n + length xs) ys"
  by (induction xs arbitrary: n) simp_all

lemma part_pairs_split:
  assumes "part_pairs count n qs = seg @ rest"
  shows "seg = part_pairs count n (take (length seg) qs) \<and>
         rest = part_pairs count (n + length seg) (drop (length seg) qs) \<and>
         length seg \<le> length qs"
proof -
  have len: "length seg \<le> length qs"
    using arg_cong [OF assms, of length] by (simp add: length_part_pairs)
  have "part_pairs count n (take (length seg) qs @ drop (length seg) qs) = seg @ rest"
    using assms by simp
  then have "part_pairs count n (take (length seg) qs) @
             part_pairs count (n + length seg) (drop (length seg) qs) = seg @ rest"
    using len by (simp only: part_pairs_append length_take min.absorb2)
  then show ?thesis using len by (simp add: append_eq_append_conv length_part_pairs)
qed

lemma part_pairs_Cons:
  "part_pairs count n (p # ps) =
     (numberToChunk (count - Suc n), bufferToChunk p) # part_pairs count (Suc n) ps"
  by simp

lemma marker_token:
  assumes "k < 32768"
  shows "asm_chunk (numberToChunk k) = show_nat k"
    and "isIntegerString (asm_chunk (numberToChunk k))"
    and "(parseInt10 (strip_minus (asm_chunk (numberToChunk k))) = IntV 0) = (k = 0)"
  using assms by (simp_all add: asm_chunk_numberToChunk show_nat_token)

lemma consumed_pairs_step:
  "isIntegerString a \<Longrightarrow>
   consumed_pairs (a # h # rest) =
     (a, h) # (if parseInt10 (strip_minus a) = IntV 0 then [] else consumed_pairs rest)"
  by simp

lemma consumed_part_pairs:
  assumes "\<not> isIntegerString s" and "count < 32768"
  shows "n + length ps \<le> count \<Longrightarrow>
    consumed_pairs (map asm_chunk (flat2 (part_pairs count n ps)) @ [s, l]) =
      map (\<lambda>(a, b). (asm_chunk a, asm_chunk b)) (part_pairs count n ps)"
proof (induction ps arbitrary: n)
  case Nil
  then show ?case using assms by simp
next
  case (Cons p ps)
  define k where "k = count - Suc n"
  have k: "k < 32768" using assms(2) by (simp add: k_def)
  let ?rest = "map asm_chunk (flat2 (part_pairs count (Suc n) ps)) @ [s, l]"
  have toks: "map asm_chunk (flat2 (part_pairs count n (p # ps))) @ [s, l] =
                asm_chunk (numberToChunk k) # asm_chunk (bufferToChunk p) # ?rest"
    by (simp only: part_pairs_Cons k_def flat2_simps list.map append_Cons)
  have step: "consumed_pairs (asm_chunk (numberToChunk k) # asm_chunk (bufferToChunk p) # ?rest) =
     (asm_chunk (numberToChunk k), asm_chunk (bufferToChunk p)) #
       (if k = 0 then [] else consumed_pairs ?rest)"
    by (simp only: consumed_pairs_step [OF marker_token(2) [OF k]] marker_token(3) [OF k])
  have lhs: "consumed_pairs (map asm_chunk (flat2 (part_pairs count n (p # ps))) @ [s, l]) =
     (asm_chunk (numberToChunk k), asm_chunk (bufferToChunk p)) #
       (if k = 0 then [] else consumed_pairs ?rest)"
    by (simp only: toks step)
  have rhs: "map (\<lambda>(a, b). (asm_chunk a, asm_chunk b)) (part_pairs count n (p # ps)) =
     (asm_chunk (numberToChunk k), asm_chunk (bufferToChunk p)) #
       map (\<lambda>(a, b). (asm_chunk a, asm_chunk b)) (part_pairs count (Suc n) ps)"
    by (simp only: part_pairs_Cons k_def list.map prod.case)
  show ?case
  proof (cases "k = 0")
    case True
    with Cons.prems have "ps = []" by (cases ps) (auto simp: k_def)
    then have "part_pairs count (Suc n) ps = []" by simp
    with True show ?thesis by (simp only: lhs rhs list.map) simp
  next
    case False
    have "Suc n + length ps \<le> count" using Cons.prems by simp
    from Cons.IH [OF this] False show ?thesis
      by (simp only: lhs rhs if_False)
  qed
qed

lemma consumed_data:
  "list_all (\<lambda>p. 4 < length p \<and> \<not> der_shape (map unat p)) ps \<Longrightarrow>
   concat (map snd (map (\<lambda>(a, b). (asm_chunk a, asm_chunk b)) (part_pairs count n ps))) =
     hex_encode (concat ps)"
  by (induction ps arbitrary: n) (simp_all add: hex_encode_append asm_chunk_bufferToChunk hex_encode_def)

lemma consumed_zero:
  assumes "count < 32768"
  shows "n + length ps \<le> count \<Longrightarrow>
   list_ex pair_is_zero (map (\<lambda>(a, b). (asm_chunk a, asm_chunk b)) (part_pairs count n ps)) =
   (ps \<noteq> [] \<and> n + length ps = count)"
proof (induction ps arbitrary: n)
  case Nil
  then show ?case by simp
next
  case (Cons p ps)
  define k where "k = count - Suc n"
  have k: "k < 32768" using assms by (simp add: k_def)
  have z: "pair_is_zero (asm_chunk (numberToChunk k), asm_chunk (bufferToChunk p)) = (k = 0)"
    using marker_token(3) [OF k] by (simp add: pair_is_zero_def)
  have "Suc n + length ps \<le> count" using Cons.prems by simp
  from Cons.IH [OF this] Cons.prems z show ?case
    by (simp only: part_pairs_Cons k_def [symmetric] list.map prod.case list_ex_Cons_iff)
      (auto simp: k_def)
qed


lemma subsequent_partial:
  assumes "\<not> isIntegerString s" and "count < 32768" and "n + length ps \<le> count"
    and "list_all (\<lambda>p. 4 < length p \<and> \<not> der_shape (map unat p)) ps"
  shows "dataHex (processSubsequentAsm (map asm_chunk (flat2 (part_pairs count n ps)) @ [s, l])) =
           hex_encode (concat ps)"
    and "endOfData (processSubsequentAsm (map asm_chunk (flat2 (part_pairs count n ps)) @ [s, l])) =
           (ps \<noteq> [] \<and> n + length ps = count)"
  using consumed_part_pairs [OF assms(1,2,3), of l] consumed_data [OF assms(4), of count n]
    consumed_zero [OF assms(2,3)]
  by (simp_all add: processSubsequentAsm_def asm_loop_pairs)

lemma genesis_partial:
  assumes "\<not> isIntegerString s" and "count < 32768" and "n + length ps \<le> count"
    and "list_all (\<lambda>p. 4 < length p \<and> \<not> der_shape (map unat p)) ps"
  shows "\<exists>g. processGenesisAsm (t0 # a # m # map asm_chunk (flat2 (part_pairs count n ps)) @ [s, l]) = Inr g \<and>
           dataHex g = hex_encode (concat ps) \<and>
           endOfData g = (ps \<noteq> [] \<and> n + length ps = count)"
  using consumed_part_pairs [OF assms(1,2,3), of l] consumed_data [OF assms(4), of count n]
    consumed_zero [OF assms(2,3)]
  by (simp add: processGenesisAsm_def asm_loop_pairs Let_def)

lemma process_vin_partial:
  assumes "v_asm v = Some (asm_of (flat2 (part_pairs count n ps) @ [sigc, lockc]))"
    and "\<not> isIntegerString (asm_chunk sigc)" and "count < 32768" and "n + length ps \<le> count"
    and "list_all (\<lambda>p. 4 < length p \<and> \<not> der_shape (map unat p)) ps"
    and "\<not> w_isGenesis st"
  shows "\<exists>st'. process_vin clock key v st = Inr st' \<and> same_place st st' \<and> \<not> w_isGenesis st' \<and>
           w_dataHex st' = w_dataHex st @ hex_encode (concat ps) \<and>
           w_endOfData st' = (w_endOfData st \<or> (ps \<noteq> [] \<and> n + length ps = count))"
proof -
  let ?s = "flat2 (part_pairs count n ps) @ [sigc, lockc]"
  let ?toks = "map asm_chunk (flat2 (part_pairs count n ps)) @ [asm_chunk sigc, asm_chunk lockc]"
  have t: "asm_tokens (asm_of ?s) = ?toks" and ne: "asm_of ?s \<noteq> []"
    using asm_tokens_asm_of [of ?s] by simp_all
  obtain x xs where c: "?toks = x # xs" by (cases ?toks) auto
  note r = subsequent_partial [OF assms(2,3,4,5), of "asm_chunk lockc", unfolded c]
  show ?thesis
    using assms(1,6) ne r
    by (simp add: process_vin_def t c Let_def same_place_def)
qed

lemma process_vin_genesis:
  assumes "v_asm v = Some (asm_of (bufferToChunk (bytes_of ''ord'') # nc # mc #
                                     flat2 (part_pairs count n ps) @ [sigc, lockc]))"
    and "\<not> isIntegerString (asm_chunk sigc)" and "count < 32768" and "n + length ps \<le> count"
    and "list_all (\<lambda>p. 4 < length p \<and> \<not> der_shape (map unat p)) ps"
    and "w_isGenesis st"
  shows "\<exists>st'. process_vin clock key v st = Inr st' \<and> same_place st st' \<and> \<not> w_isGenesis st' \<and>
           w_dataHex st' = w_dataHex st @ hex_encode (concat ps) \<and>
           w_endOfData st' = (ps \<noteq> [] \<and> n + length ps = count)"
proof -
  let ?s = "bufferToChunk (bytes_of ''ord'') # nc # mc # flat2 (part_pairs count n ps) @ [sigc, lockc]"
  let ?rest = "map asm_chunk (flat2 (part_pairs count n ps)) @ [asm_chunk sigc, asm_chunk lockc]"
  have t: "asm_tokens (asm_of ?s) = ''6582895'' # asm_chunk nc # asm_chunk mc # ?rest"
    and ne: "asm_of ?s \<noteq> []"
    using asm_tokens_asm_of [of ?s] by (simp_all add: asm_chunk_ord)
  from genesis_partial [OF assms(2,3,4,5), of "''6582895''" "asm_chunk nc" "asm_chunk mc" "asm_chunk lockc"]
  obtain g where g: "processGenesisAsm (''6582895'' # asm_chunk nc # asm_chunk mc # ?rest) = Inr g"
    "dataHex g = hex_encode (concat ps)" "endOfData g = (ps \<noteq> [] \<and> n + length ps = count)"
    by blast
  show ?thesis
    using assms(1,6) ne g
    by (simp add: process_vin_def t same_place_def)
qed

lemma process_vin_wallet:
  assumes "i_script j = wallet_unlock sg u"
    and "wallet_unlock sg u = [] \<or> \<not> isIntegerString (asm_chunk (hd (wallet_unlock sg u)))"
    and "\<not> w_isGenesis st"
  shows "process_vin clock key (vin_of j) st = Inr st"
proof (cases "wallet_unlock sg u")
  case Nil
  with assms(1) show ?thesis by (simp add: process_vin_def vin_of_def asm_of_def)
next
  case (Cons c cs)
  with assms(2) have "\<not> isIntegerString (asm_chunk c)" by simp
  from process_vin_inert [OF _ this assms(3), of "vin_of j" cs] Cons assms(1)
  show ?thesis by (simp add: vin_of_def)
qed

lemma process_vins_wallet:
  assumes "\<forall>u. wallet_unlock sg u = [] \<or> \<not> isIntegerString (asm_chunk (hd (wallet_unlock sg u)))"
    and "\<not> w_isGenesis st"
  shows "list_all (\<lambda>j. \<exists>u. i_script j = wallet_unlock sg u) others \<Longrightarrow>
         process_vins clock key (map vin_of others) st = Inr st"
proof (induction others)
  case Nil
  then show ?case by simp
next
  case (Cons j others)
  from Cons.prems obtain u where "i_script j = wallet_unlock sg u" by auto
  from process_vin_wallet [OF this _ assms(2)] assms(1)
  have "process_vin clock key (vin_of j) st = Inr st" by blast
  with Cons show ?case by simp
qed

lemma size_carries:
  assumes "carries sg prev P t"
  shows "size prev < size t"
proof -
  from assms obtain i others where i: "t_inputs t = i # others" "i_prevTxId i = TxHash prev"
    by (auto simp: carries_def)
  have "size prev < size i" using i(2) by (cases i) simp
  moreover have "size i < size t" using i(1) by (cases t) simp
  ultimately show ?thesis by simp
qed

lemma links_nonempty: "links sg prev P cps ts \<Longrightarrow> ts \<noteq> []"
  by (induction rule: links.induct) simp_all

lemma links_head: "links sg prev P cps ts \<Longrightarrow> carries sg prev P (hd ts)"
  by (induction rule: links.induct) simp_all

lemma links_size: "links sg prev P cps ts \<Longrightarrow> \<forall>t \<in> set ts. size prev < size t"
proof (induction rule: links.induct)
  case (last_link prev partial t)
  then show ?case by (simp add: size_carries)
next
  case (next_link prev partial t seg rest ts)
  from size_carries [OF next_link.hyps(1)] next_link.IH show ?case by auto
qed

lemma decode_hop_next:
  assumes "\<not> w_endOfData st" and "w_txid st \<notin> w_processed st"
    and "n_tx nd (w_txid st) = Some raw"
    and "process_vins clock key (r_vin raw) (st\<lparr>w_processed := insert (w_txid st) (w_processed st)\<rparr>) = Inr st'"
    and "\<not> w_endOfData st'"
    and "findNextOrdinalTx nd (w_txid st') (w_voutIndex st') depth = Some (t, v, h)"
  shows "decode_loop clock nd key depth (Suc left) st =
         decode_loop clock nd key depth left (st'\<lparr>w_txid := t, w_voutIndex := v\<rparr>)"
  using assms by (simp add: getrawtransaction_def)


lemma hop_partial:
  assumes "carries sg prev (flat2 (part_pairs count n ps)) t"
    and "\<forall>t l. \<not> isIntegerString (asm_chunk (bufferToChunk (sighash_sign sg t l @ [SIGHASH_ALL])))"
    and "\<forall>u. wallet_unlock sg u = [] \<or> \<not> isIntegerString (asm_chunk (hd (wallet_unlock sg u)))"
    and "count < 32768" and "n + length ps \<le> count"
    and "list_all (\<lambda>p. 4 < length p \<and> \<not> der_shape (map unat p)) ps"
    and "\<not> w_isGenesis st"
  shows "\<exists>st'. process_vins clock key (map vin_of (t_inputs t)) st = Inr st' \<and> same_place st st' \<and>
           \<not> w_isGenesis st' \<and>
           w_dataHex st' = w_dataHex st @ hex_encode (concat ps) \<and>
           w_endOfData st' = (w_endOfData st \<or> (ps \<noteq> [] \<and> n + length ps = count))"
proof -
  let ?P = "flat2 (part_pairs count n ps)"
  from assms(1) obtain i others t' where
    i: "t_inputs t = i # others" "i_script i = unlock_script sg t' (lock_script sg ?P) ?P"
       "list_all (\<lambda>j. \<exists>u. i_script j = wallet_unlock sg u) others"
    by (auto simp: carries_def)
  let ?sigc = "bufferToChunk (sighash_sign sg t' (lock_script sg ?P) @ [SIGHASH_ALL])"
  have a: "v_asm (vin_of i) = Some (asm_of (?P @ [?sigc, bufferToChunk (toBuffer (lock_script sg ?P))]))"
    using i(2) by (simp add: vin_of_def unlock_script_def)
  have s: "\<not> isIntegerString (asm_chunk ?sigc)" using assms(2) by blast
  from process_vin_partial [OF a s assms(4,5,6,7), of clock key] obtain st1 where
    st1: "process_vin clock key (vin_of i) st = Inr st1" "same_place st st1" "\<not> w_isGenesis st1"
      "w_dataHex st1 = w_dataHex st @ hex_encode (concat ps)"
      "w_endOfData st1 = (w_endOfData st \<or> (ps \<noteq> [] \<and> n + length ps = count))"
    by blast
  from process_vins_wallet [OF assms(3) st1(3) i(3), of clock key]
  have "process_vins clock key (map vin_of (t_inputs t)) st = Inr st1"
    using st1(1) i(1) by simp
  with st1 show ?thesis by blast
qed

lemma hop_genesis:
  assumes "carries sg prev (bufferToChunk (bytes_of ''ord'') # nc # mc # flat2 (part_pairs count n ps)) t"
    and "\<forall>t l. \<not> isIntegerString (asm_chunk (bufferToChunk (sighash_sign sg t l @ [SIGHASH_ALL])))"
    and "\<forall>u. wallet_unlock sg u = [] \<or> \<not> isIntegerString (asm_chunk (hd (wallet_unlock sg u)))"
    and "count < 32768" and "n + length ps \<le> count"
    and "list_all (\<lambda>p. 4 < length p \<and> \<not> der_shape (map unat p)) ps"
    and "w_isGenesis st"
  shows "\<exists>st'. process_vins clock key (map vin_of (t_inputs t)) st = Inr st' \<and> same_place st st' \<and>
           \<not> w_isGenesis st' \<and>
           w_dataHex st' = w_dataHex st @ hex_encode (concat ps) \<and>
           w_endOfData st' = (ps \<noteq> [] \<and> n + length ps = count)"
proof -
  let ?P = "bufferToChunk (bytes_of ''ord'') # nc # mc # flat2 (part_pairs count n ps)"
  from assms(1) obtain i others t' where
    i: "t_inputs t = i # others" "i_script i = unlock_script sg t' (lock_script sg ?P) ?P"
       "list_all (\<lambda>j. \<exists>u. i_script j = wallet_unlock sg u) others"
    by (auto simp: carries_def)
  let ?sigc = "bufferToChunk (sighash_sign sg t' (lock_script sg ?P) @ [SIGHASH_ALL])"
  have a: "v_asm (vin_of i) = Some (asm_of (bufferToChunk (bytes_of ''ord'') # nc # mc #
              flat2 (part_pairs count n ps) @ [?sigc, bufferToChunk (toBuffer (lock_script sg ?P))]))"
    using i(2) by (simp add: vin_of_def unlock_script_def)
  have s: "\<not> isIntegerString (asm_chunk ?sigc)" using assms(2) by blast
  from process_vin_genesis [OF a s assms(4,5,6,7), of clock key] obtain st1 where
    st1: "process_vin clock key (vin_of i) st = Inr st1" "same_place st st1" "\<not> w_isGenesis st1"
      "w_dataHex st1 = w_dataHex st @ hex_encode (concat ps)"
      "w_endOfData st1 = (ps \<noteq> [] \<and> n + length ps = count)"
    by blast
  from process_vins_wallet [OF assms(3) st1(3) i(3), of clock key]
  have "process_vins clock key (map vin_of (t_inputs t)) st = Inr st1"
    using st1(1) i(1) by simp
  with st1 show ?thesis by blast
qed

lemma on_chain_raw:
  "on_chain nd depth (t # ts) \<Longrightarrow>
   \<exists>raw. n_tx nd (TxHash t) = Some raw \<and> r_vin raw = map vin_of (t_inputs t)"
  by (cases ts) auto

lemma on_chain_next:
  "on_chain nd depth (t # t' # ts) \<Longrightarrow>
   (\<exists>h. findNextOrdinalTx nd (TxHash t) 0 depth = Some (TxHash t', 0, h)) \<and>
   on_chain nd depth (t' # ts)"
  by auto


lemma decode_links:
  assumes sigh: "\<forall>t l. \<not> isIntegerString (asm_chunk (bufferToChunk (sighash_sign sg t l @ [SIGHASH_ALL])))"
    and wal: "\<forall>u. wallet_unlock sg u = [] \<or> \<not> isIntegerString (asm_chunk (hd (wallet_unlock sg u)))"
    and cnt: "count < 32768"
  shows "links sg prev P cps ts \<Longrightarrow> P = flat2 (part_pairs count n ps) \<Longrightarrow> ps \<noteq> [] \<Longrightarrow>
    cps = part_pairs count (n + length ps) qs \<Longrightarrow> n + length ps + length qs = count \<Longrightarrow>
    list_all (\<lambda>p. 4 < length p \<and> \<not> der_shape (map unat p)) (ps @ qs) \<Longrightarrow>
    on_chain nd depth ts \<Longrightarrow> w_txid st = TxHash (hd ts) \<Longrightarrow>
    \<not> w_endOfData st \<Longrightarrow> \<not> w_isGenesis st \<Longrightarrow> w_voutIndex st = 0 \<Longrightarrow>
    (\<forall>t \<in> set ts. TxHash t \<notin> w_processed st) \<Longrightarrow> length ts \<le> fuel \<Longrightarrow>
    \<exists>st'. decode_loop clock nd key depth fuel st = Inr st' \<and>
          w_dataHex st' = w_dataHex st @ hex_encode (concat (ps @ qs)) \<and> w_endOfData st'"
proof (induction arbitrary: n ps qs st fuel rule: links.induct)
  case (last_link prev partial t)
  let ?st0 = "st\<lparr>w_processed := insert (w_txid st) (w_processed st)\<rparr>"
  from last_link.prems(3) have qs: "qs = []"
    using length_part_pairs [of count "n + length ps" qs] by simp
  from last_link.prems(12) obtain left where fuel: "fuel = Suc left" by (cases fuel) auto
  from on_chain_raw [OF last_link.prems(6)] obtain raw where
    raw: "n_tx nd (TxHash t) = Some raw" "r_vin raw = map vin_of (t_inputs t)" by blast
  have c: "carries sg prev (flat2 (part_pairs count n ps)) t"
    using last_link.hyps last_link.prems(1) by simp
  have h: "list_all (\<lambda>p. 4 < length p \<and> \<not> der_shape (map unat p)) ps"
    using last_link.prems(5) by simp
  have le: "n + length ps \<le> count" using last_link.prems(4) by simp
  have g: "\<not> w_isGenesis ?st0" using last_link.prems(9) by simp
  from hop_partial [OF c sigh wal cnt le h g, of clock key] obtain st1 where
    st1: "process_vins clock key (map vin_of (t_inputs t)) ?st0 = Inr st1"
      "w_dataHex st1 = w_dataHex ?st0 @ hex_encode (concat ps)"
      "w_endOfData st1 = (w_endOfData ?st0 \<or> (ps \<noteq> [] \<and> n + length ps = count))"
    by blast
  have e: "w_endOfData st1" using st1(3) last_link.prems(2,4) qs by simp
  have raw': "n_tx nd (w_txid st) = Some raw" using raw(1) last_link.prems(7) by simp
  have np: "w_txid st \<notin> w_processed st" using last_link.prems(7,11) by simp
  from decode_hop_end [OF last_link.prems(8) np raw' _ e, of clock key depth left] st1(1) raw(2)
  have "decode_loop clock nd key depth fuel st = Inr st1" by (simp add: fuel)
  with st1(2) e qs show ?case by simp
next
  case (next_link prev partial t seg rest ts)
  let ?st0 = "st\<lparr>w_processed := insert (w_txid st) (w_processed st)\<rparr>"
  define k where "k = length seg"
  from part_pairs_split [OF next_link.prems(3) [symmetric]]
  have sp: "seg = part_pairs count (n + length ps) (take k qs)"
    "rest = part_pairs count (n + length ps + k) (drop k qs)" "k \<le> length qs"
    by (simp_all add: k_def)
  have k0: "0 < k" using next_link.hyps(2) by (simp add: k_def)
  from next_link.prems(12) obtain left where fuel: "fuel = Suc left" "length ts \<le> left"
    by (cases fuel) auto
  from links_nonempty [OF next_link.hyps(3)] obtain t' ts' where ts: "ts = t' # ts'"
    by (cases ts) auto
  from on_chain_raw [OF next_link.prems(6)] obtain raw where
    raw: "n_tx nd (TxHash t) = Some raw" "r_vin raw = map vin_of (t_inputs t)" by blast
  from on_chain_next [OF next_link.prems(6) [unfolded ts]] obtain h where
    nx: "findNextOrdinalTx nd (TxHash t) 0 depth = Some (TxHash t', 0, h)"
    and oc: "on_chain nd depth ts"
    by (auto simp: ts)
  have c: "carries sg prev (flat2 (part_pairs count n ps)) t"
    using next_link.hyps(1) next_link.prems(1) by simp
  have hp: "list_all (\<lambda>p. 4 < length p \<and> \<not> der_shape (map unat p)) ps"
    and hq: "list_all (\<lambda>p. 4 < length p \<and> \<not> der_shape (map unat p)) qs"
    using next_link.prems(5) by simp_all
  have le: "n + length ps \<le> count" using next_link.prems(4) by simp
  have g: "\<not> w_isGenesis ?st0" using next_link.prems(9) by simp
  from hop_partial [OF c sigh wal cnt le hp g, of clock key] obtain st1 where
    st1: "process_vins clock key (map vin_of (t_inputs t)) ?st0 = Inr st1"
      "same_place ?st0 st1" "\<not> w_isGenesis st1"
      "w_dataHex st1 = w_dataHex ?st0 @ hex_encode (concat ps)"
      "w_endOfData st1 = (w_endOfData ?st0 \<or> (ps \<noteq> [] \<and> n + length ps = count))"
    by blast
  have ne: "\<not> w_endOfData st1"
    using st1(5) next_link.prems(4,8) sp(3) k0 by simp
  have pl: "w_txid st1 = TxHash t" "w_voutIndex st1 = 0"
    "w_processed st1 = insert (TxHash t) (w_processed st)"
    using st1(2) next_link.prems(7,10) by (simp_all add: same_place_def)
  let ?st2 = "st1\<lparr>w_txid := TxHash t', w_voutIndex := 0\<rparr>"
  have raw': "n_tx nd (w_txid st) = Some raw" using raw(1) next_link.prems(7) by simp
  have np: "w_txid st \<notin> w_processed st" using next_link.prems(7,11) by simp
  have nx': "findNextOrdinalTx nd (w_txid st1) (w_voutIndex st1) depth = Some (TxHash t', 0, h)"
    using nx pl by simp
  have step: "decode_loop clock nd key depth fuel st = decode_loop clock nd key depth left ?st2"
    using decode_hop_next [OF next_link.prems(8) np raw' _ ne nx', of clock key left] st1(1) raw(2)
    by (simp add: fuel)
  have fresh: "\<forall>x \<in> set ts. TxHash x \<notin> w_processed ?st2"
  proof
    fix x
    assume x: "x \<in> set ts"
    with links_size [OF next_link.hyps(3)] have "x \<noteq> t" by auto
    moreover from x next_link.prems(11) have "TxHash x \<notin> w_processed st" by simp
    ultimately show "TxHash x \<notin> w_processed ?st2" using pl(3) by simp
  qed
  have tk: "take k qs \<noteq> []" using k0 sp(3) by (cases qs) auto
  have lt: "length (take k qs) = k" using sp(3) by simp
  have ih: "\<exists>st'. decode_loop clock nd key depth left ?st2 = Inr st' \<and>
          w_dataHex st' = w_dataHex ?st2 @ hex_encode (concat (take k qs @ drop k qs)) \<and>
          w_endOfData st'"
  proof (rule next_link.IH [of "n + length ps" "take k qs" "drop k qs" ?st2 left])
    show "flat2 seg = flat2 (part_pairs count (n + length ps) (take k qs))"
      using sp(1) by simp
    show "take k qs \<noteq> []" by (rule tk)
    show "rest = part_pairs count (n + length ps + length (take k qs)) (drop k qs)"
      using sp(2) lt by simp
    show "n + length ps + length (take k qs) + length (drop k qs) = count"
      using next_link.prems(4) sp(3) by simp
    show "list_all (\<lambda>p. 4 < length p \<and> \<not> der_shape (map unat p)) (take k qs @ drop k qs)"
      using hq by simp
    show "on_chain nd depth ts" by (rule oc)
    show "w_txid ?st2 = TxHash (hd ts)" by (simp add: ts)
    show "\<not> w_endOfData ?st2" using ne by simp
    show "\<not> w_isGenesis ?st2" using st1(3) by simp
    show "w_voutIndex ?st2 = 0" by simp
    show "\<forall>x \<in> set ts. TxHash x \<notin> w_processed ?st2" by (rule fresh)
    show "length ts \<le> left" by (rule fuel(2))
  qed
  then obtain st' where st': "decode_loop clock nd key depth left ?st2 = Inr st'"
    "w_dataHex st' = w_dataHex ?st2 @ hex_encode (concat qs)" "w_endOfData st'"
    by auto
  have "w_dataHex st' = w_dataHex st @ hex_encode (concat (ps @ qs))"
    using st'(2) st1(4) by (simp add: hex_encode_append)
  with step st'(1,3) show ?case by simp
qed


lemma decode_genesis:
  assumes sigh: "\<forall>t l. \<not> isIntegerString (asm_chunk (bufferToChunk (sighash_sign sg t l @ [SIGHASH_ALL])))"
    and wal: "\<forall>u. wallet_unlock sg u = [] \<or> \<not> isIntegerString (asm_chunk (hd (wallet_unlock sg u)))"
    and cnt: "count < 32768"
    and lk: "links sg prev (bufferToChunk (bytes_of ''ord'') # nc # mc # flat2 (part_pairs count 0 ps)) cps ts"
    and cps: "cps = part_pairs count (length ps) qs"
    and len: "length ps + length qs = count" "0 < count"
    and hex: "list_all (\<lambda>p. 4 < length p \<and> \<not> der_shape (map unat p)) (ps @ qs)"
    and oc: "on_chain nd depth ts"
    and st: "w_txid st = TxHash (hd ts)" "\<not> w_endOfData st" "w_isGenesis st" "w_voutIndex st = 0"
      "w_processed st = {}"
    and fuel: "length ts \<le> fuel"
  shows "\<exists>st'. decode_loop clock nd key depth fuel st = Inr st' \<and>
          w_dataHex st' = w_dataHex st @ hex_encode (concat (ps @ qs)) \<and> w_endOfData st'"
proof -
  let ?P = "bufferToChunk (bytes_of ''ord'') # nc # mc # flat2 (part_pairs count 0 ps)"
  let ?st0 = "st\<lparr>w_processed := insert (w_txid st) (w_processed st)\<rparr>"
  from links_nonempty [OF lk] obtain t ts' where ts: "ts = t # ts'" by (cases ts) auto
  from links_head [OF lk] ts have c: "carries sg prev ?P t" by simp
  from fuel ts obtain left where fl: "fuel = Suc left" "length ts' \<le> left" by (cases fuel) auto
  from on_chain_raw [OF oc [unfolded ts]] obtain raw where
    raw: "n_tx nd (TxHash t) = Some raw" "r_vin raw = map vin_of (t_inputs t)" by blast
  have hp: "list_all (\<lambda>p. 4 < length p \<and> \<not> der_shape (map unat p)) ps"
    and hq: "list_all (\<lambda>p. 4 < length p \<and> \<not> der_shape (map unat p)) qs"
    using hex by simp_all
  have le: "0 + length ps \<le> count" using len by simp
  have g: "w_isGenesis ?st0" using st(3) by simp
  from hop_genesis [OF c sigh wal cnt le hp g, of clock key] obtain st1 where
    st1: "process_vins clock key (map vin_of (t_inputs t)) ?st0 = Inr st1"
      "same_place ?st0 st1" "\<not> w_isGenesis st1"
      "w_dataHex st1 = w_dataHex ?st0 @ hex_encode (concat ps)"
      "w_endOfData st1 = (ps \<noteq> [] \<and> 0 + length ps = count)"
    by blast
  have raw': "n_tx nd (w_txid st) = Some raw" using raw(1) st(1) ts by simp
  have np: "w_txid st \<notin> w_processed st" using st(5) by simp
  have pv: "process_vins clock key (r_vin raw) ?st0 = Inr st1" using st1(1) raw(2) by simp
  show ?thesis
  proof (cases "qs = []")
    case True
    then have e: "w_endOfData st1" using st1(5) len by auto
    from decode_hop_end [OF st(2) np raw' pv e, of depth left]
    have "decode_loop clock nd key depth fuel st = Inr st1" by (simp add: fl)
    with st1(4) e True show ?thesis by simp
  next
    case False
    then have ne: "\<not> w_endOfData st1" using st1(5) len by auto
    from False cps have cne: "cps \<noteq> []"
      using length_part_pairs [of count "length ps" qs] by auto
    from lk ts cne obtain seg rest where
      nl: "cps = seg @ rest" "seg \<noteq> []" "links sg t (flat2 seg) rest ts'"
      by (cases rule: links.cases) auto
    define k where "k = length seg"
    from part_pairs_split [OF cps [unfolded nl(1), symmetric]]
    have sp: "seg = part_pairs count (length ps) (take k qs)"
      "rest = part_pairs count (length ps + k) (drop k qs)" "k \<le> length qs"
      by (simp_all add: k_def)
    have k0: "0 < k" using nl(2) by (simp add: k_def)
    from links_nonempty [OF nl(3)] obtain t' ts'' where ts': "ts' = t' # ts''"
      by (cases ts') auto
    from on_chain_next [OF oc [unfolded ts ts']] obtain h where
      nx: "findNextOrdinalTx nd (TxHash t) 0 depth = Some (TxHash t', 0, h)"
      and oc': "on_chain nd depth ts'"
      by (auto simp: ts')
    have pl: "w_txid st1 = TxHash t" "w_voutIndex st1 = 0"
      "w_processed st1 = {TxHash t}"
      using st1(2) st(1,4,5) ts by (simp_all add: same_place_def)
    let ?st2 = "st1\<lparr>w_txid := TxHash t', w_voutIndex := 0\<rparr>"
    have nx': "findNextOrdinalTx nd (w_txid st1) (w_voutIndex st1) depth = Some (TxHash t', 0, h)"
      using nx pl by simp
    have step: "decode_loop clock nd key depth fuel st = decode_loop clock nd key depth left ?st2"
      using decode_hop_next [OF st(2) np raw' pv ne nx', of left] by (simp add: fl)
    have fresh: "\<forall>x \<in> set ts'. TxHash x \<notin> w_processed ?st2"
      using links_size [OF nl(3)] pl(3) by auto
    have tk: "take k qs \<noteq> []" using k0 sp(3) by (cases qs) auto
    have lt: "length (take k qs) = k" using sp(3) by simp
    have "\<exists>st'. decode_loop clock nd key depth left ?st2 = Inr st' \<and>
          w_dataHex st' = w_dataHex ?st2 @ hex_encode (concat (take k qs @ drop k qs)) \<and>
          w_endOfData st'"
    proof (rule decode_links [OF sigh wal cnt nl(3), of "length ps" "take k qs" "drop k qs" nd depth ?st2 left])
      show "flat2 seg = flat2 (part_pairs count (length ps) (take k qs))"
        using sp(1) by simp
      show "take k qs \<noteq> []" by (rule tk)
      show "rest = part_pairs count (length ps + length (take k qs)) (drop k qs)"
        using sp(2) lt by simp
      show "length ps + length (take k qs) + length (drop k qs) = count"
        using len sp(3) by simp
      show "list_all (\<lambda>p. 4 < length p \<and> \<not> der_shape (map unat p)) (take k qs @ drop k qs)"
        using hq by simp
      show "on_chain nd depth ts'" by (rule oc')
      show "w_txid ?st2 = TxHash (hd ts')" by (simp add: ts')
      show "\<not> w_endOfData ?st2" using ne by simp
      show "\<not> w_isGenesis ?st2" using st1(3) by simp
      show "w_voutIndex ?st2 = 0" by simp
      show "\<forall>x \<in> set ts'. TxHash x \<notin> w_processed ?st2" by (rule fresh)
      show "length ts' \<le> left" by (rule fl(2))
    qed
    then obtain st' where st': "decode_loop clock nd key depth left ?st2 = Inr st'"
      "w_dataHex st' = w_dataHex ?st2 @ hex_encode (concat qs)" "w_endOfData st'"
      by auto
    have "w_dataHex st' = w_dataHex st @ hex_encode (concat (ps @ qs))"
      using st'(2) st1(4) by (simp add: hex_encode_append)
    with step st'(1,3) show ?thesis by simp
  qed
qed


text \<open>
  Where the round trip holds: the payload is not empty, the content type has at most 520
  bytes (the bound \<open>mint\<close> checks), there are fewer than 32768 parts, every part has more
  than four bytes and not the shape of a signature, so that the node prints it as hex;
  no signature or wallet script of the key is printed as an integer; the node has the
  chain from its second transaction on, each transaction found from the one before
  within the depth searched; and \<open>maxHops\<close> covers the chain. Then the walker, started at
  the second transaction, returns, and the bytes written are the payload.
\<close>

theorem inscribe_decode_round_trip:
  assumes ins: "inscribe fuel sg w addr contentType data = Some (Inr txs)"
    and ne: "data \<noteq> []" and ct: "length contentType \<le> 520"
    and cnt: "length (split_parts data) < 32768"
    and hex: "list_all (\<lambda>p. 4 < length p \<and> \<not> der_shape (map unat p)) (split_parts data)"
    and sigh: "\<forall>t l. \<not> isIntegerString (asm_chunk (bufferToChunk (sighash_sign sg t l @ [SIGHASH_ALL])))"
    and wal: "\<forall>u. wallet_unlock sg u = [] \<or> \<not> isIntegerString (asm_chunk (hd (wallet_unlock sg u)))"
    and oc: "on_chain nd depth (tl txs)" and hops: "length txs \<le> Suc maxHops"
  shows "written_bytes skip (decodeDoginalsChain clock nd (TxHash (txs ! 1)) depth key maxHops tr) =
         Some data"
proof -
  let ?parts = "split_parts data"
  let ?N = "length ?parts"
  from inscribe_links [OF ins small_envelope_pairs [OF ct]] obtain t0 seg0 rest ts where
    l: "txs = t0 # ts" "envelope_pairs contentType data = seg0 @ rest" "seg0 \<noteq> []"
       "links sg t0 (bufferToChunk (bytes_of ''ord'') # flat2 seg0) rest ts"
    by blast
  from l(2,3) obtain pp0 where
    seg0: "seg0 = (numberToChunk ?N, bufferToChunk (bytes_of contentType)) # pp0"
    and pp: "part_pairs ?N 0 ?parts = pp0 @ rest"
    by (cases seg0) (auto simp: envelope_pairs_def)
  define k where "k = length pp0"
  from part_pairs_split [OF pp]
  have sp: "pp0 = part_pairs ?N 0 (take k ?parts)" "rest = part_pairs ?N k (drop k ?parts)"
    "k \<le> ?N"
    by (simp_all add: k_def)
  have lk: "links sg t0 (bufferToChunk (bytes_of ''ord'') # numberToChunk ?N #
              bufferToChunk (bytes_of contentType) # flat2 (part_pairs ?N 0 (take k ?parts))) rest ts"
    using l(4) seg0 sp(1) by simp
  from links_nonempty [OF l(4)] have tsne: "ts \<noteq> []" .
  then have t1: "txs ! 1 = hd ts" using l(1) by (cases ts) auto
  have n0: "0 < ?N" using split_parts_nonempty [OF ne] by simp
  define tr0 where "tr0 = (case getProgress key tr of
                   None \<Rightarrow> initProgress clock key (resetProgressForId key tr)
                 | Some p \<Rightarrow> tr)"
  let ?st = "\<lparr> w_dataHex = [], w_mimeType = None, w_isGenesis = True, w_txid = TxHash (txs ! 1),
                w_processed = {}, w_voutIndex = 0, w_endOfData = False, w_tracker = tr0 \<rparr>"
  have "\<exists>st'. decode_loop clock nd key depth maxHops ?st = Inr st' \<and>
          w_dataHex st' = w_dataHex ?st @ hex_encode (concat (take k ?parts @ drop k ?parts)) \<and>
          w_endOfData st'"
  proof (rule decode_genesis [OF sigh wal cnt lk])
    show "rest = part_pairs ?N (length (take k ?parts)) (drop k ?parts)"
      using sp(2,3) by simp
    show "length (take k ?parts) + length (drop k ?parts) = ?N" by simp
    show "0 < ?N" by (rule n0)
    show "list_all (\<lambda>p. 4 < length p \<and> \<not> der_shape (map unat p)) (take k ?parts @ drop k ?parts)"
      using hex by simp
    show "on_chain nd depth ts" using oc l(1) by simp
    show "w_txid ?st = TxHash (hd ts)" using t1 by simp
    show "\<not> w_endOfData ?st" by simp
    show "w_isGenesis ?st" by simp
    show "w_voutIndex ?st = 0" by simp
    show "w_processed ?st = {}" by simp
    show "length ts \<le> maxHops" using hops l(1) by simp
  qed
  then obtain st' where st': "decode_loop clock nd key depth maxHops ?st = Inr st'"
    "w_dataHex st' = hex_encode data"
    by (auto simp: split_parts_concat)
  have "hex_encode data \<noteq> []" using ne length_hex_encode [of data] by auto
  with st' show ?thesis
    by (simp add: decodeDoginalsChain_def written_bytes_def tr0_def Let_def resultBuf_hex_encode)
qed


subsection \<open>A built chain on the node that confirms it\<close>

lemma links_distinct: "links sg prev P cps ts \<Longrightarrow> distinct (prev # ts)"
proof (induction rule: links.induct)
  case (last_link prev partial t)
  from size_carries [OF last_link] show ?case by auto
next
  case (next_link prev partial t seg rest ts)
  from size_carries [OF next_link.hyps(1)] links_size [OF next_link.hyps(3)] next_link.IH
  show ?case by auto
qed

lemma size_input: "i \<in> set (t_inputs t) \<Longrightarrow> size (i_prevTxId i) < size t"
proof -
  assume "i \<in> set (t_inputs t)"
  then have "size i \<le> size_list size (t_inputs t)"
    by (induction "t_inputs t" arbitrary: t) (auto simp: size_list_estimation')
  moreover have "size (i_prevTxId i) < size i" by (cases i) simp
  moreover have "size_list size (t_inputs t) < size t" by (cases t) simp
  ultimately show ?thesis by simp
qed


lemma node_of_tx:
  assumes "distinct txs" and "i < length txs"
  shows "n_tx (node_of txs) (TxHash (txs ! i)) =
           Some \<lparr> r_vin = map vin_of (t_inputs (txs ! i)), r_height = Some i \<rparr>"
proof -
  let ?f = "\<lambda>(h, t). (TxHash t, \<lparr> r_vin = map vin_of (t_inputs t), r_height = Some h \<rparr>)"
  let ?L = "map ?f (zip [0 ..< length txs] txs)"
  have z: "map snd (zip [0 ..< length txs] txs) = txs"
    by (rule map_snd_zip) simp
  have "map fst ?L = map (TxHash \<circ> snd) (zip [0 ..< length txs] txs)"
    by (simp add: case_prod_beta comp_def)
  also have "\<dots> = map TxHash (map snd (zip [0 ..< length txs] txs))"
    by (simp only: map_map)
  finally have "map fst ?L = map TxHash txs" by (simp only: z)
  then have "distinct (map fst ?L)"
    using assms(1) by (simp only: distinct_map) (simp add: inj_on_def)
  moreover have "(i, txs ! i) \<in> set (zip [0 ..< length txs] txs)"
    using assms(2) by (auto simp: in_set_zip intro!: exI [of _ i])
  then have "?f (i, txs ! i) \<in> set ?L" by (simp only: set_map) (rule imageI)
  ultimately show ?thesis
    by (simp add: node_of_def)
qed

lemma node_of_block:
  "i < length txs \<Longrightarrow>
   n_blocks (node_of txs) ! i = [\<lparr> b_txid = TxHash (txs ! i), b_vin = map vin_of (t_inputs (txs ! i)) \<rparr>]"
  "length (n_blocks (node_of txs)) = length txs"
  by (simp_all add: node_of_def)

lemma not_self_spender: "\<not> list_ex (spends (TxHash t) v) (map vin_of (t_inputs t))"
proof
  assume "list_ex (spends (TxHash t) v) (map vin_of (t_inputs t))"
  then obtain i where i: "i \<in> set (t_inputs t)" "i_prevTxId i = TxHash t"
    by (auto simp: list_ex_iff spends_def vin_of_def)
  from size_input [OF i(1)] i(2) show False by simp
qed

lemma carries_spender:
  "carries sg prev P t \<Longrightarrow> list_ex (spends (TxHash prev) 0) (map vin_of (t_inputs t))"
  by (auto simp: carries_def spends_def vin_of_def)

lemma find_next_node_of:
  assumes "distinct txs" and "Suc i < length txs" and "carries sg (txs ! i) P (txs ! Suc i)"
  shows "findNextOrdinalTx (node_of txs) (TxHash (txs ! i)) 0 (Suc d) =
           Some (TxHash (txs ! Suc i), 0, Suc i)"
proof -
  have i: "i < length txs" using assms(2) by simp
  show ?thesis
    using node_of_tx [OF assms(1) i] node_of_block(1) [OF i] node_of_block(1) [OF assms(2)]
      node_of_block(2) [of txs] assms(2) not_self_spender [of "txs ! i" 0]
      carries_spender [OF assms(3)]
    by (simp add: findNextOrdinalTx_def)
qed


lemma on_chain_node_of:
  "links sg prev P cps ts \<Longrightarrow> txs = pre @ prev # ts \<Longrightarrow> distinct txs \<Longrightarrow>
   on_chain (node_of txs) (Suc d) ts"
proof (induction arbitrary: pre rule: links.induct)
  case (last_link prev partial t)
  have "txs ! Suc (length pre) = t" "Suc (length pre) < length txs"
    using last_link.prems(1) by (simp_all add: nth_append)
  with node_of_tx [OF last_link.prems(2), of "Suc (length pre)"] show ?case by simp
next
  case (next_link prev partial t seg rest ts)
  from links_nonempty [OF next_link.hyps(3)] obtain t' ts' where ts: "ts = t' # ts'"
    by (cases ts) auto
  have ix: "txs ! Suc (length pre) = t" "txs ! Suc (Suc (length pre)) = t'"
    "Suc (Suc (length pre)) < length txs"
    using next_link.prems(1) ts by (simp_all add: nth_append)
  have c: "carries sg (txs ! Suc (length pre)) (flat2 seg) (txs ! Suc (Suc (length pre)))"
    using links_head [OF next_link.hyps(3)] ts ix by simp
  have raw: "n_tx (node_of txs) (TxHash t) =
      Some \<lparr> r_vin = map vin_of (t_inputs t), r_height = Some (Suc (length pre)) \<rparr>"
    using node_of_tx [OF next_link.prems(2), of "Suc (length pre)"] ix by simp
  have nx: "findNextOrdinalTx (node_of txs) (TxHash t) 0 (Suc d) =
      Some (TxHash t', 0, Suc (Suc (length pre)))"
    using find_next_node_of [OF next_link.prems(2) ix(3) c, of d] ix by simp
  have "txs = (pre @ [prev]) @ t # ts" using next_link.prems(1) by simp
  from next_link.IH [OF this next_link.prems(2)] raw nx show ?case by (simp add: ts)
qed

text \<open>
  On the node that has confirmed the chain, one transaction a block, the hypothesis on
  the node is met, for any depth of at least one block.
\<close>

theorem inscribe_decode_on_node:
  assumes ins: "inscribe fuel sg w addr contentType data = Some (Inr txs)"
    and ne: "data \<noteq> []" and ct: "length contentType \<le> 520"
    and cnt: "length (split_parts data) < 32768"
    and hex: "list_all (\<lambda>p. 4 < length p \<and> \<not> der_shape (map unat p)) (split_parts data)"
    and sigh: "\<forall>t l. \<not> isIntegerString (asm_chunk (bufferToChunk (sighash_sign sg t l @ [SIGHASH_ALL])))"
    and wal: "\<forall>u. wallet_unlock sg u = [] \<or> \<not> isIntegerString (asm_chunk (hd (wallet_unlock sg u)))"
    and hops: "length txs \<le> Suc maxHops"
  shows "written_bytes skip
           (decodeDoginalsChain clock (node_of txs) (TxHash (txs ! 1)) (Suc d) key maxHops tr) =
         Some data"
proof -
  from inscribe_links [OF ins small_envelope_pairs [OF ct]] obtain t0 seg0 rest ts where
    l: "txs = t0 # ts"
       "links sg t0 (bufferToChunk (bytes_of ''ord'') # flat2 seg0) rest ts"
    by blast
  from links_distinct [OF l(2)] l(1) have d: "distinct txs" by simp
  from on_chain_node_of [OF l(2), of txs "[]" d] l(1) d
  have "on_chain (node_of txs) (Suc d) (tl txs)" by simp
  from inscribe_decode_round_trip [OF ins ne ct cnt hex sigh wal this hops] show ?thesis .
qed

lemma signature_token_inert:
  "\<not> isIntegerString (asm_chunk (bufferToChunk (replicate 71 0xAB @ [SIGHASH_ALL])))"
proof -
  have "\<not> der_shape (map unat (replicate 71 (0xAB :: byte) @ [SIGHASH_ALL]))"
    by (simp add: der_shape_def nth_append)
  then have "asm_chunk (bufferToChunk (replicate 71 0xAB @ [SIGHASH_ALL])) =
             hex_encode (replicate 71 0xAB @ [SIGHASH_ALL])"
    by (simp add: asm_chunk_bufferToChunk)
  also have "\<dots> = hex_byte 0xAB @ hex_encode (replicate 70 0xAB @ [SIGHASH_ALL])"
    by (simp only: hex_encode_Cons [symmetric] append_Cons [symmetric] replicate_Suc [symmetric]) simp
  finally show ?thesis
    by (simp add: hex_byte_def hex_digit_def isIntegerString_def strip_minus_def is_digit_def
        char_of_eq_iff)
qed

text \<open>
  The inscription of 1680 bytes, which takes three transactions and two hops of the
  walker, comes back whole.
\<close>

lemma inscribe_decode_long:
  "written_bytes skip
     (decodeDoginalsChain example_clock (node_of long_chain) (TxHash (long_chain ! 1)) 5000 ''k'' 20000
        empty_tracker) = Some (replicate 1680 0x41)"
proof -
  from chain_of_length [OF long_chain_length]
  have c: "inscribe 3 example_signer example_wallet ''D2'' ''text/plain'' (replicate 1680 0x41) =
             Some (Inr long_chain)" "length long_chain = 3"
    by (simp_all add: long_chain_def)
  have ne: "replicate 1680 (0x41 :: byte) \<noteq> []" by simp
  have ct: "length ''text/plain'' \<le> 520" by simp
  have cnt: "length (split_parts (replicate 1680 (0x41 :: byte))) < 32768"
    by (simp add: long_parts)
  have hex: "list_all (\<lambda>p. 4 < length p \<and> \<not> der_shape (map unat p))
               (split_parts (replicate 1680 (0x41 :: byte)))"
    by (simp add: long_parts der_shape_def)
  have sigh: "\<forall>t l. \<not> isIntegerString
      (asm_chunk (bufferToChunk (sighash_sign example_signer t l @ [SIGHASH_ALL])))"
    using signature_token_inert by (simp add: example_signer_def)
  have wal: "\<forall>u. wallet_unlock example_signer u = [] \<or>
      \<not> isIntegerString (asm_chunk (hd (wallet_unlock example_signer u)))"
    using wallet_token_inert by (simp add: example_signer_def)
  have hops: "length long_chain \<le> Suc 20000" using c(2) by simp
  have h: "(5000::nat) = Suc 4999" by simp
  from inscribe_decode_on_node [OF c(1) ne ct cnt hex sigh wal hops, of skip example_clock 4999 "''k''" empty_tracker]
  show ?thesis by (simp only: h)
qed

section \<open>The round trip fails for a short last part\<close>

text \<open>
  Claim C1: the bytes inscribed by the builder come back from the walker and the
  hex-to-bytes step. On the code this fails for a payload whose last part has at most
  four bytes: the node prints such a push as the decimal number it encodes (the reason
  the walker looks for \<open>ord\<close> as \<open>6582895\<close>), and the walker appends the token to the hex
  string as it does every data token. The inscription of the single byte \<open>0c\<close> (12) is
  printed as \<open>12\<close> and decoded as the byte \<open>12\<close> (18), with or without the padding of an
  odd hex string, which does not apply here. Where every part has more than four bytes
  the bytes come back, as \<open>inscribe_decode_round_trip\<close> shows.
\<close>

theorem inscribe_decode_single_byte:
  "inscribe 2 example_signer example_wallet ''D2'' ''text/plain'' [0x0c] = Some (Inr byte_chain) \<and>
   written_bytes False
     (decodeDoginalsChain example_clock (node_of byte_chain) (TxHash (byte_chain ! 1)) 5000 ''k'' 20000
        empty_tracker) = Some [0x12] \<and>
   written_bytes True
     (decodeDoginalsChain example_clock (node_of byte_chain) (TxHash (byte_chain ! 1)) 5000 ''k'' 20000
        empty_tracker) = Some [0x12]"
proof -
  from chain_of_length [OF byte_chain_length]
  have c: "inscribe 2 example_signer example_wallet ''D2'' ''text/plain'' [0x0c] = Some (Inr byte_chain)"
    "length byte_chain = 2"
    by (simp_all add: byte_chain_def)
  have h: "(20000::nat) = Suc 19999" by simp
  have r: "resultBuf skip ''12'' = [0x12]" for skip
    by (simp add: resultBuf_def hex_decode.simps hexval_def)
  from decode_single [OF c byte_chain_scripts wallet_token_inert, of _ example_clock 5000 "''k''" 19999 empty_tracker]
  show ?thesis using c(1) by (simp only: h [symmetric] asm_chunk_byte_12 r simp_thms)
qed

end
